theory Spec2Isabelle
  imports Main "HOL-Library.Word" "HOL-Library.Signed_Division" "HOL-Library.Monad_Syntax"
begin

unbundle bit_operations_syntax

section \<open>Data model of image\_utils.c\<close>

text \<open>
  The embedding follows \<^verbatim>\<open>library/src/main/jni/image/image_utils.c\<close>.

  \<^item> A C \<^verbatim>\<open>int\<close> is an \<open>int\<close> in the 32-bit range. Every sum, difference, product
    and negation that the geometry code of lines 72 to 88 and 142 to 284 computes in
    \<^verbatim>\<open>int\<close> is reduced to 32 bits, two's complement (\<open>add_int\<close>, \<open>sub_int\<close>,
    \<open>mul_int\<close>, \<open>neg_int\<close>), as the compiled code does; \<open>/\<close> and \<open>%\<close> are the
    truncating \<open>sdiv\<close> and \<open>smod\<close>. Loop counters stay below their bounds and cannot
    overflow. In the block averager of lines 117 to 140 the products \<open>ratio * ratio\<close> and
    \<open>w * i\<close> are exact, which is what the code computes while they stay below \<open>2 ^ 31\<close>.
  \<^item> The conversions the code writes are modelled as C defines them:
    \<^verbatim>\<open>(size_t) e\<close> reduces modulo \<open>2 ^ 64\<close> (an LP64 host), and a \<^verbatim>\<open>size_t\<close> stored into an
    \<^verbatim>\<open>int\<close> keeps the low 32 bits, read as two's complement.
  \<^item> A pixel is the 32-bit value of an \<^verbatim>\<open>int\<close> cell; its four bytes in memory depend on
    the byte order of the host, which is a parameter.
  \<^item> The two buffers are two regions of the state, each a list of pixels. A pointer is a
    region and an index counted in \<^verbatim>\<open>int\<close> cells; the byte offsets \<^verbatim>\<open>dst_pos\<close> and
    \<^verbatim>\<open>src_pos\<close> of the code are multiples of four and are divided by four where the code
    casts to \<^verbatim>\<open>int *\<close>.
  \<^item> Every load and store is checked against the bounds of its region. An access outside
    them stops the run with the fault \<open>OutOfBounds\<close> and the state reached so far.
  \<^item> The end pointer of \<^verbatim>\<open>memset_int\<close> is an address of 64 bits: adding \<open>n\<close> cells
    changes it by \<open>4 * n\<close> modulo \<open>2 ^ 64\<close>. Relative to the base of the buffer it is an
    offset in cells reduced to the range from \<open>- (2 ^ 61)\<close> to \<open>2 ^ 61\<close> (\<open>ptr_plus\<close>),
    and two pointers into one buffer compare as their offsets do. This is the order of the
    addresses for every buffer that lies at least \<open>2 ^ 34\<close> bytes away from both ends of
    the address space, since the counts of this program, once wrapped, are offsets of at
    most \<open>2 ^ 31\<close> cells.
\<close>

type_synonym pixel = "32 word"
type_synonym uchar = "8 word"

datatype byte_order = LittleEndianHost | BigEndianHost

datatype region = Dst | Src

type_synonym int_ptr = "region \<times> int"

record state =
  endian :: "32 word"
  dst_mem :: "pixel list"
  src_mem :: "pixel list"

datatype fault = OutOfBounds | DivisionByZero

type_synonym 'a result = "(fault \<times> state) + 'a"

definition LITTLE_ENDIAN :: "32 word" where
  "LITTLE_ENDIAN = 0"

definition BIG_ENDIAN :: "32 word" where
  "BIG_ENDIAN = 1"

definition then_do :: "'a result \<Rightarrow> ('a \<Rightarrow> 'b result) \<Rightarrow> 'b result" where
  "then_do m f = (case m of Inl e \<Rightarrow> Inl e | Inr x \<Rightarrow> f x)"

fun final_state :: "state result \<Rightarrow> state" where
  "final_state (Inl e) = snd e"
| "final_state (Inr s) = s"

subsection \<open>Memory\<close>

fun buf :: "state \<Rightarrow> region \<Rightarrow> pixel list" where
  "buf s Dst = dst_mem s"
| "buf s Src = src_mem s"

fun set_buf :: "region \<Rightarrow> pixel list \<Rightarrow> state \<Rightarrow> state" where
  "set_buf Dst xs s = s\<lparr>dst_mem := xs\<rparr>"
| "set_buf Src xs s = s\<lparr>src_mem := xs\<rparr>"

definition in_bounds :: "state \<Rightarrow> int_ptr \<Rightarrow> bool" where
  "in_bounds s p = (0 \<le> snd p \<and> snd p < int (length (buf s (fst p))))"

definition load :: "int_ptr \<Rightarrow> state \<Rightarrow> pixel option" where
  "load p s = (if in_bounds s p then Some (buf s (fst p) ! nat (snd p)) else None)"

definition store :: "int_ptr \<Rightarrow> pixel \<Rightarrow> state \<Rightarrow> state result" where
  "store p v s =
     (if in_bounds s p then Inr (set_buf (fst p) ((buf s (fst p))[nat (snd p) := v]) s)
      else Inl (OutOfBounds, s))"

text \<open>\<^verbatim>\<open>(int *) (base + pos)\<close> for a \<^verbatim>\<open>void *\<close> base and a byte offset.\<close>

definition void_plus :: "region \<Rightarrow> int \<Rightarrow> int_ptr" where
  "void_plus r pos = (r, pos div 4)"

definition to_size_t :: "int \<Rightarrow> int" where
  "to_size_t x = x mod 2 ^ 64"

definition to_int :: "int \<Rightarrow> int" where
  "to_int x = (x + 2 ^ 31) mod 2 ^ 32 - 2 ^ 31"

text \<open>Arithmetic on \<^verbatim>\<open>int\<close>, wrapping at 32 bits.\<close>

definition add_int :: "int \<Rightarrow> int \<Rightarrow> int" where
  "add_int a b = to_int (a + b)"

definition sub_int :: "int \<Rightarrow> int \<Rightarrow> int" where
  "sub_int a b = to_int (a - b)"

definition mul_int :: "int \<Rightarrow> int \<Rightarrow> int" where
  "mul_int a b = to_int (a * b)"

definition neg_int :: "int \<Rightarrow> int" where
  "neg_int a = to_int (- a)"

text \<open>
  \<^verbatim>\<open>p + n\<close> for a pointer \<open>p\<close> to \<^verbatim>\<open>int\<close> cells and a \<^verbatim>\<open>size_t\<close> \<open>n\<close>: the offset in
  cells of the resulting 64-bit address.
\<close>

definition ptr_plus :: "int \<Rightarrow> int \<Rightarrow> int" where
  "ptr_plus p n = (p + n + 2 ^ 61) mod 2 ^ 62 - 2 ^ 61"

text \<open>The object representation of a 32-bit value: its bytes at offsets 0 to 3.\<close>

definition int_bytes :: "byte_order \<Rightarrow> 32 word \<Rightarrow> uchar list" where
  "int_bytes bo v =
     (let lsb_first = [ucast v, ucast (drop_bit 8 v), ucast (drop_bit 16 v), ucast (drop_bit 24 v)]
      in case bo of LittleEndianHost \<Rightarrow> lsb_first | BigEndianHost \<Rightarrow> rev lsb_first)"

definition lsb_first_value :: "uchar list \<Rightarrow> 32 word" where
  "lsb_first_value bs =
     ucast (bs ! 0) OR push_bit 8 (ucast (bs ! 1)) OR push_bit 16 (ucast (bs ! 2))
       OR push_bit 24 (ucast (bs ! 3))"

definition bytes_int :: "byte_order \<Rightarrow> uchar list \<Rightarrow> 32 word" where
  "bytes_int bo bs =
     (case bo of LittleEndianHost \<Rightarrow> lsb_first_value bs | BigEndianHost \<Rightarrow> lsb_first_value (rev bs))"

subsection \<open>Channel codec (lines 28 to 62 and 99 to 115)\<close>

definition get_endian :: "byte_order \<Rightarrow> state \<Rightarrow> 32 word \<times> state" where
  "get_endian bo s =
     (let x = (1 :: 32 word);
          s' = (if endian s = NOT 0
                then (if 1 = int_bytes bo x ! 0 then s\<lparr>endian := LITTLE_ENDIAN\<rparr>
                      else s\<lparr>endian := BIG_ENDIAN\<rparr>)
                else s)
      in (endian s', s'))"

definition convert_color :: "byte_order \<Rightarrow> 32 word \<Rightarrow> state \<Rightarrow> 32 word \<times> state" where
  "convert_color bo origin s =
     (let orPtr = int_bytes bo origin;
          (e, s') = get_endian bo s;
          rePtr = (if e = BIG_ENDIAN then [orPtr ! 1, orPtr ! 2, orPtr ! 3, orPtr ! 0]
                   else [orPtr ! 2, orPtr ! 1, orPtr ! 0, orPtr ! 3])
      in (bytes_int bo rePtr, s'))"

definition rgba_to_color :: "byte_order \<Rightarrow> uchar \<Rightarrow> uchar \<Rightarrow> uchar \<Rightarrow> uchar \<Rightarrow> pixel" where
  "rgba_to_color bo r g b a = bytes_int bo [r, g, b, a]"

definition color_to_rgba :: "byte_order \<Rightarrow> pixel \<Rightarrow> uchar \<times> uchar \<times> uchar \<times> uchar" where
  "color_to_rgba bo color =
     (let p = int_bytes bo color in (p ! 0, p ! 1, p ! 2, p ! 3))"

subsection \<open>memset\_int, ceil, floor (lines 64 to 88)\<close>

function memset_loop :: "region \<Rightarrow> int \<Rightarrow> int \<Rightarrow> pixel \<Rightarrow> state \<Rightarrow> state result" where
  "memset_loop r ptr maxPtr val s =
     (if ptr < maxPtr
      then then_do (store (r, ptr) val s) (memset_loop r (ptr + 1) maxPtr val)
      else Inr s)"
  by pat_completeness auto
termination
  by (relation "measure (\<lambda>(r, ptr, maxPtr, val, s). nat (maxPtr - ptr))") auto

definition memset_int :: "int_ptr \<Rightarrow> pixel \<Rightarrow> int \<Rightarrow> state \<Rightarrow> state result" where
  "memset_int dst val sz s = memset_loop (fst dst) (snd dst) (ptr_plus (snd dst) sz) val s"

definition ceil :: "int \<Rightarrow> int \<Rightarrow> int" where
  "ceil num multiple =
     (let remainder = num smod multiple
      in if remainder = 0 then num else add_int (sub_int num remainder) multiple)"

definition floor :: "int \<Rightarrow> int \<Rightarrow> int" where
  "floor num multiple =
     (let remainder = num smod multiple
      in if remainder = 0 then num else sub_int num remainder)"

subsection \<open>Block averager (lines 90 to 133)\<close>

definition average_step :: "uchar \<Rightarrow> int \<Rightarrow> uchar \<times> uchar \<Rightarrow> uchar \<times> uchar" where
  "average_step num count xy =
     (let x = (word_of_int (uint (fst xy) + uint num sdiv count) :: uchar);
          y = (word_of_int (uint (snd xy) + uint num smod count) :: uchar)
      in if uint y \<ge> count then (x + 1, word_of_int (uint y - count)) else (x, y))"

record averages =
  r1 :: uchar
  r2 :: uchar
  g1 :: uchar
  g2 :: uchar
  b1 :: uchar
  b2 :: uchar
  a1 :: uchar
  a2 :: uchar

definition no_averages :: averages where
  "no_averages = \<lparr>r1 = 0, r2 = 0, g1 = 0, g2 = 0, b1 = 0, b2 = 0, a1 = 0, a2 = 0\<rparr>"

text \<open>The body of the inner loop of \<^verbatim>\<open>bilinear_color\<close> for one loaded pixel.\<close>

definition average_pixel :: "byte_order \<Rightarrow> pixel \<Rightarrow> int \<Rightarrow> averages \<Rightarrow> averages" where
  "average_pixel bo color count acc =
     (case color_to_rgba bo color of (r, g, b, a) \<Rightarrow>
        let rs = average_step r count (r1 acc, r2 acc);
            gs = average_step g count (g1 acc, g2 acc);
            bs = average_step b count (b1 acc, b2 acc);
            as = average_step a count (a1 acc, a2 acc)
        in \<lparr>r1 = fst rs, r2 = snd rs, g1 = fst gs, g2 = snd gs,
            b1 = fst bs, b2 = snd bs, a1 = fst as, a2 = snd as\<rparr>)"

function bilinear_cols ::
  "byte_order \<Rightarrow> int_ptr \<Rightarrow> int \<Rightarrow> int \<Rightarrow> int \<Rightarrow> int \<Rightarrow> int \<Rightarrow> averages \<Rightarrow> state \<Rightarrow> averages option"
where
  "bilinear_cols bo ptr w ratio count i j acc s =
     (if j < ratio
      then (case load (fst ptr, snd ptr + (w * i) + j) s of
              None \<Rightarrow> None
            | Some color \<Rightarrow>
                bilinear_cols bo ptr w ratio count i (j + 1) (average_pixel bo color count acc) s)
      else Some acc)"
  by pat_completeness auto
termination
  by (relation "measure (\<lambda>(bo, ptr, w, ratio, count, i, j, acc, s). nat (ratio - j))") auto

function bilinear_rows ::
  "byte_order \<Rightarrow> int_ptr \<Rightarrow> int \<Rightarrow> int \<Rightarrow> int \<Rightarrow> int \<Rightarrow> averages \<Rightarrow> state \<Rightarrow> averages option"
where
  "bilinear_rows bo ptr w ratio count i acc s =
     (if i < ratio
      then (case bilinear_cols bo ptr w ratio count i 0 acc s of
              None \<Rightarrow> None
            | Some acc' \<Rightarrow> bilinear_rows bo ptr w ratio count (i + 1) acc' s)
      else Some acc)"
  by pat_completeness auto
termination
  by (relation "measure (\<lambda>(bo, ptr, w, ratio, count, i, acc, s). nat (ratio - i))") auto

definition bilinear_color ::
  "byte_order \<Rightarrow> int_ptr \<Rightarrow> int \<Rightarrow> int \<Rightarrow> int_ptr \<Rightarrow> state \<Rightarrow> state result"
where
  "bilinear_color bo ptr w ratio result s =
     (let count = ratio * ratio
      in case bilinear_rows bo ptr w ratio count 0 no_averages s of
           None \<Rightarrow> Inl (OutOfBounds, s)
         | Some acc \<Rightarrow> store result (rgba_to_color bo (r1 acc) (g1 acc) (b1 acc) (a1 acc)) s)"

subsection \<open>Row copier (lines 135 to 148)\<close>

function copy_color_loop ::
  "byte_order \<Rightarrow> int_ptr \<Rightarrow> int_ptr \<Rightarrow> int \<Rightarrow> int \<Rightarrow> int \<Rightarrow> int \<Rightarrow> state \<Rightarrow> state result"
where
  "copy_color_loop bo dst src src_w count ratio i s =
     (if i < count
      then then_do (bilinear_color bo src src_w ratio dst s)
             (copy_color_loop bo (fst dst, snd dst + 1) (fst src, snd src + ratio)
                src_w count ratio (i + 1))
      else Inr s)"
  by pat_completeness auto
termination
  by (relation "measure (\<lambda>(bo, dst, src, src_w, count, ratio, i, s). nat (count - i))") auto

definition copy_color_internal ::
  "byte_order \<Rightarrow> int_ptr \<Rightarrow> int_ptr \<Rightarrow> int \<Rightarrow> int \<Rightarrow> int \<Rightarrow> state \<Rightarrow> state result"
where
  "copy_color_internal bo dst src src_w count ratio s =
     copy_color_loop bo dst src src_w count ratio 0 s"

text \<open>
  \<^verbatim>\<open>memcpy\<close> of \<open>sz\<close> bytes between two \<^verbatim>\<open>int\<close>-aligned pointers, one cell at a time.
\<close>

function memcpy_loop :: "int_ptr \<Rightarrow> int_ptr \<Rightarrow> int \<Rightarrow> int \<Rightarrow> state \<Rightarrow> state result" where
  "memcpy_loop dst src i n s =
     (if i < n
      then (case load (fst src, snd src + i) s of
              None \<Rightarrow> Inl (OutOfBounds, s)
            | Some v \<Rightarrow> then_do (store (fst dst, snd dst + i) v s) (memcpy_loop dst src (i + 1) n))
      else Inr s)"
  by pat_completeness auto
termination
  by (relation "measure (\<lambda>(dst, src, i, n, s). nat (n - i))") auto

definition memcpy :: "int_ptr \<Rightarrow> int_ptr \<Rightarrow> int \<Rightarrow> state \<Rightarrow> state result" where
  "memcpy dst src sz s = memcpy_loop dst src 0 (sz div 4) s"

definition copy_color ::
  "byte_order \<Rightarrow> int_ptr \<Rightarrow> int_ptr \<Rightarrow> int \<Rightarrow> int \<Rightarrow> int \<Rightarrow> state \<Rightarrow> state result"
where
  "copy_color bo dst src src_w count ratio s =
     (if ratio = 1 then memcpy dst src (to_size_t (mul_int count 4)) s
      else if ratio = 0 then Inl (DivisionByZero, s)
      else copy_color_internal bo dst src src_w (count sdiv ratio) ratio s)"

subsection \<open>Region blitter: the rows after the first\<close>

text \<open>The loop of lines 254 to 262; it returns \<^verbatim>\<open>dst_pos\<close> with the state.\<close>

function other_lines ::
  "byte_order \<Rightarrow> bool \<Rightarrow> pixel \<Rightarrow> int \<Rightarrow> int \<Rightarrow> int \<Rightarrow> int \<Rightarrow> int \<Rightarrow> int \<Rightarrow> int \<Rightarrow> int \<Rightarrow> int \<Rightarrow>
     state \<Rightarrow> (int \<times> state) result"
where
  "other_lines bo fill_blank fill_color dst_blank_length src_w width height ratio src_stride
       line dst_pos src_pos s =
     (if line < height sdiv ratio
      then then_do
             (if fill_blank \<and> dst_blank_length \<noteq> 0
              then memset_int (void_plus Dst dst_pos) fill_color (dst_blank_length div 4) s
              else Inr s)
             (\<lambda>s. let dst_pos = to_int (to_size_t (to_size_t dst_pos + dst_blank_length))
                  in then_do
                       (copy_color bo (void_plus Dst dst_pos) (void_plus Src src_pos) src_w width ratio s)
                       (other_lines bo fill_blank fill_color dst_blank_length src_w width height
                          ratio src_stride (line + 1) (add_int dst_pos (mul_int width 4))
                          (add_int src_pos src_stride)))
      else Inr (dst_pos, s))"
  by pat_completeness auto
termination
  by (relation "measure (\<lambda>(bo, fill_blank, fill_color, dst_blank_length, src_w, width, height,
        ratio, src_stride, line, dst_pos, src_pos, s). nat (height sdiv ratio - line))") auto

subsection \<open>Region blitter: clipping (lines 160 to 232)\<close>

record geometry =
  dst_x :: int
  dst_y :: int
  src_x :: int
  src_y :: int
  width :: int
  height :: int

text \<open>Lines 165 to 172.\<close>

definition round_size :: "int \<Rightarrow> geometry \<Rightarrow> geometry option" where
  "round_size ratio g =
     (let g = g\<lparr>width := floor (width g) ratio\<rparr>;
          g = g\<lparr>height := floor (height g) ratio\<rparr>
      in if ratio > width g \<or> ratio > height g then None else Some g)"

text \<open>Lines 175 to 180 and 181 to 186.\<close>

definition clip_src_x :: "int \<Rightarrow> geometry \<Rightarrow> geometry" where
  "clip_src_x ratio g =
     (if src_x g < 0
      then let temp = ceil (neg_int (src_x g)) ratio
           in g\<lparr>src_x := add_int (src_x g) temp, dst_x := add_int (dst_x g) (temp sdiv ratio),
                width := sub_int (width g) temp\<rparr>
      else g)"

definition clip_dst_x :: "int \<Rightarrow> geometry \<Rightarrow> geometry" where
  "clip_dst_x ratio g =
     (if dst_x g < 0
      then let temp = mul_int (neg_int (dst_x g)) ratio
           in g\<lparr>src_x := add_int (src_x g) temp, dst_x := 0, width := sub_int (width g) temp\<rparr>
      else g)"

text \<open>Lines 192 to 197 and 198 to 203.\<close>

definition clip_src_y :: "int \<Rightarrow> geometry \<Rightarrow> geometry" where
  "clip_src_y ratio g =
     (if src_y g < 0
      then let temp = ceil (neg_int (src_y g)) ratio
           in g\<lparr>src_y := add_int (src_y g) temp, dst_y := add_int (dst_y g) (temp sdiv ratio),
                height := sub_int (height g) temp\<rparr>
      else g)"

definition clip_dst_y :: "int \<Rightarrow> geometry \<Rightarrow> geometry" where
  "clip_dst_y ratio g =
     (if dst_y g < 0
      then let temp = mul_int (neg_int (dst_y g)) ratio
           in g\<lparr>src_y := add_int (src_y g) temp, dst_y := 0, height := sub_int (height g) temp\<rparr>
      else g)"

text \<open>Lines 209 to 212 and 213 to 216.\<close>

definition clip_src_w :: "int \<Rightarrow> int \<Rightarrow> geometry \<Rightarrow> geometry" where
  "clip_src_w src_w ratio g =
     (let temp = sub_int (add_int (src_x g) (width g)) src_w
      in if temp > 0 then g\<lparr>width := sub_int (width g) (ceil temp ratio)\<rparr> else g)"

definition clip_dst_w :: "int \<Rightarrow> int \<Rightarrow> geometry \<Rightarrow> geometry" where
  "clip_dst_w dst_w ratio g =
     (let temp = sub_int (add_int (dst_x g) (width g sdiv ratio)) dst_w
      in if temp > 0 then g\<lparr>width := sub_int (width g) (mul_int temp ratio)\<rparr> else g)"

text \<open>Lines 222 to 225 and 226 to 229.\<close>

definition clip_src_h :: "int \<Rightarrow> int \<Rightarrow> geometry \<Rightarrow> geometry" where
  "clip_src_h src_h ratio g =
     (let temp = sub_int (add_int (src_y g) (height g)) src_h
      in if temp > 0 then g\<lparr>height := sub_int (height g) (ceil temp ratio)\<rparr> else g)"

definition clip_dst_h :: "int \<Rightarrow> int \<Rightarrow> geometry \<Rightarrow> geometry" where
  "clip_dst_h dst_h ratio g =
     (let temp = sub_int (add_int (dst_y g) (height g sdiv ratio)) dst_h
      in if temp > 0 then g\<lparr>height := sub_int (height g) (mul_int temp ratio)\<rparr> else g)"

text \<open>The checks of lines 187, 204, 217 and 230.\<close>

definition width_left :: "geometry \<Rightarrow> geometry option" where
  "width_left g = (if width g \<le> 0 then None else Some g)"

definition height_left :: "geometry \<Rightarrow> geometry option" where
  "height_left g = (if height g \<le> 0 then None else Some g)"

text \<open>
  Lines 160 to 232 of \<^verbatim>\<open>copy_pixels_internal\<close>: \<open>None\<close> is \<^verbatim>\<open>return false\<close>, \<open>Some g\<close>
  the values of the six variables when line 234 is reached.
\<close>

definition clip_x_low :: "int \<Rightarrow> geometry \<Rightarrow> geometry option" where
  "clip_x_low ratio g = width_left (clip_dst_x ratio (clip_src_x ratio g))"

definition clip_y_low :: "int \<Rightarrow> geometry \<Rightarrow> geometry option" where
  "clip_y_low ratio g = height_left (clip_dst_y ratio (clip_src_y ratio g))"

definition clip_x_high :: "int \<Rightarrow> int \<Rightarrow> int \<Rightarrow> geometry \<Rightarrow> geometry option" where
  "clip_x_high src_w dst_w ratio g = width_left (clip_dst_w dst_w ratio (clip_src_w src_w ratio g))"

definition clip_y_high :: "int \<Rightarrow> int \<Rightarrow> int \<Rightarrow> geometry \<Rightarrow> geometry option" where
  "clip_y_high src_h dst_h ratio g = height_left (clip_dst_h dst_h ratio (clip_src_h src_h ratio g))"

definition clip ::
  "int \<Rightarrow> int \<Rightarrow> int \<Rightarrow> int \<Rightarrow> int \<Rightarrow> geometry \<Rightarrow> geometry option"
where
  "clip dst_w dst_h src_w src_h ratio g =
     (if ratio \<le> 0 then None
      else round_size ratio g \<bind> clip_x_low ratio \<bind> clip_y_low ratio
             \<bind> clip_x_high src_w dst_w ratio \<bind> clip_y_high src_h dst_h ratio)"

subsection \<open>Region blitter: blanks and rows (lines 234 to 284)\<close>

definition copy_pixels_internal ::
  "byte_order \<Rightarrow> int \<Rightarrow> int \<Rightarrow> int \<Rightarrow> int \<Rightarrow> int \<Rightarrow> int \<Rightarrow> int \<Rightarrow> int \<Rightarrow> int \<Rightarrow> int \<Rightarrow> int \<Rightarrow>
     bool \<Rightarrow> pixel \<Rightarrow> state \<Rightarrow> (bool \<times> state) result"
where
  "copy_pixels_internal bo dst_w dst_h dst_x0 dst_y0 src_w src_h src_x0 src_y0 width0 height0
       ratio fill_blank fill_color s =
     (case clip dst_w dst_h src_w src_h ratio
             \<lparr>dst_x = dst_x0, dst_y = dst_y0, src_x = src_x0, src_y = src_y0,
              width = width0, height = height0\<rparr> of
        None \<Rightarrow> Inr (False, s)
      | Some g \<Rightarrow>
          let src_pos = mul_int (add_int (mul_int (src_y g) src_w) (src_x g)) 4;
              dst_pos = 0;
              src_stride = mul_int (mul_int src_w 4) ratio;
              dst_blank_length =
                to_size_t (to_size_t (add_int (mul_int (dst_y g) dst_w) (dst_x g)) * 4)
          in then_do
               (if fill_blank
                then memset_int (void_plus Dst dst_pos) fill_color (dst_blank_length div 4) s
                else Inr s)
               (\<lambda>s. let dst_pos = to_int (to_size_t (to_size_t dst_pos + dst_blank_length))
                    in then_do
                         (copy_color bo (void_plus Dst dst_pos) (void_plus Src src_pos) src_w
                            (width g) ratio s)
                         (\<lambda>s. let dst_pos = add_int dst_pos (mul_int (width g) 4);
                                  src_pos = add_int src_pos src_stride;
                                  dst_blank_length = to_size_t (mul_int (sub_int dst_w (width g)) 4)
                              in then_do
                                   (other_lines bo fill_blank fill_color dst_blank_length src_w
                                      (width g) (height g) ratio src_stride 1 dst_pos src_pos s)
                                   (\<lambda>(dst_pos, s).
                                      then_do
                                        (if fill_blank
                                         then memset_int (void_plus Dst dst_pos) fill_color
                                                (to_size_t (sub_int (mul_int (mul_int dst_w dst_h) 4)
                                                              dst_pos) div 4) s
                                         else Inr s)
                                        (\<lambda>s. Inr (True, s))))))"

definition copy_pixels ::
  "byte_order \<Rightarrow> int \<Rightarrow> int \<Rightarrow> int \<Rightarrow> int \<Rightarrow> int \<Rightarrow> int \<Rightarrow> int \<Rightarrow> int \<Rightarrow> int \<Rightarrow> int \<Rightarrow> int \<Rightarrow>
     bool \<Rightarrow> 32 word \<Rightarrow> state \<Rightarrow> state result"
where
  "copy_pixels bo dst_w dst_h dst_x0 dst_y0 src_w src_h src_x0 src_y0 width0 height0
       ratio fill_blank fill_color s =
     (let (color, s) = (if fill_blank then convert_color bo fill_color s else (0, s))
      in then_do
           (copy_pixels_internal bo dst_w dst_h dst_x0 dst_y0 src_w src_h src_x0 src_y0
              width0 height0 ratio fill_blank color s)
           (\<lambda>(copied, s).
              if \<not> copied \<and> fill_blank
              then memset_int (Dst, 0) color (to_size_t (mul_int dst_w dst_h)) s
              else Inr s))"

subsection \<open>Notions used by the statements\<close>

text \<open>
  The cached flag \<^verbatim>\<open>endian\<close> is valid when it still has its static initial value
  \<^verbatim>\<open>~0U\<close> or holds what \<open>get_endian\<close> stores when it starts from that value.
\<close>

definition cache_valid :: "byte_order \<Rightarrow> state \<Rightarrow> bool" where
  "cache_valid bo s =
     (endian s = NOT 0 \<or> endian s = fst (get_endian bo (s\<lparr>endian := NOT 0\<rparr>)))"

text \<open>
  A geometry is inside when the rectangle it describes lies within the source and,
  divided by the ratio, within the destination.
\<close>

definition inside :: "int \<Rightarrow> int \<Rightarrow> int \<Rightarrow> int \<Rightarrow> int \<Rightarrow> geometry \<Rightarrow> bool" where
  "inside dst_w dst_h src_w src_h ratio g =
     (0 \<le> src_x g \<and> 0 \<le> src_y g \<and> src_x g + width g \<le> src_w \<and> src_y g + height g \<le> src_h \<and>
      0 \<le> dst_x g \<and> 0 \<le> dst_y g \<and>
      dst_x g + width g sdiv ratio \<le> dst_w \<and> dst_y g + height g sdiv ratio \<le> dst_h)"

text \<open>
  A result keeps the source when the state it carries, after a fault as after a normal
  return, has the source contents \<open>m\<close>.
\<close>

definition src_kept :: "pixel list \<Rightarrow> ('a \<Rightarrow> state) \<Rightarrow> 'a result \<Rightarrow> bool" where
  "src_kept m sel res =
     (case res of Inl e \<Rightarrow> src_mem (snd e) = m | Inr x \<Rightarrow> src_mem (sel x) = m)"

text \<open>
  The pixel that \<open>bilinear_color\<close> stores through \<^verbatim>\<open>result\<close>, or \<open>None\<close> when a load of
  the block is out of bounds.
\<close>

definition averaged_pixel :: "byte_order \<Rightarrow> int_ptr \<Rightarrow> int \<Rightarrow> int \<Rightarrow> state \<Rightarrow> pixel option" where
  "averaged_pixel bo ptr w ratio s =
     map_option (\<lambda>acc. rgba_to_color bo (r1 acc) (g1 acc) (b1 acc) (a1 acc))
       (bilinear_rows bo ptr w ratio (ratio * ratio) 0 no_averages s)"

text \<open>
  Channel \<open>k\<close> of a pixel is byte \<open>k\<close> of its cell in memory (0 for R, 1 for G, 2 for B,
  3 for A); \<open>average_of k\<close> selects the accumulator pair of that channel.
\<close>

definition channel :: "byte_order \<Rightarrow> nat \<Rightarrow> pixel \<Rightarrow> int" where
  "channel bo k px = uint (int_bytes bo px ! k)"

definition average_of :: "nat \<Rightarrow> averages \<Rightarrow> uchar \<times> uchar" where
  "average_of k acc =
     (if k = 0 then (r1 acc, r2 acc) else if k = 1 then (g1 acc, g2 acc)
      else if k = 2 then (b1 acc, b2 acc) else (a1 acc, a2 acc))"

definition holds_sum :: "nat \<Rightarrow> int \<Rightarrow> averages \<Rightarrow> int \<Rightarrow> bool" where
  "holds_sum k c acc S =
     (uint (fst (average_of k acc)) * c + uint (snd (average_of k acc)) = S \<and>
      uint (snd (average_of k acc)) < c)"

section \<open>Channel codec\<close>

lemma lsb_first_value_bytes:
  fixes a b c d :: uchar
  defines "w \<equiv> lsb_first_value [a, b, c, d]"
  shows "ucast w = a" and "ucast (drop_bit 8 w) = b"
    and "ucast (drop_bit 16 w) = c" and "ucast (drop_bit 24 w) = d"
  unfolding w_def lsb_first_value_def
  by (rule bit_word_eqI; auto simp add: bit_simps nth_Cons' dest: bit_imp_le_length)+

lemma int_bytes_bytes_int:
  "int_bytes bo (bytes_int bo [a, b, c, d]) = [a, b, c, d]"
  by (cases bo) (simp_all add: int_bytes_def bytes_int_def lsb_first_value_bytes)

lemma color_to_rgba_rgba_to_color:
  "color_to_rgba bo (rgba_to_color bo r g b a) = (r, g, b, a)"
  by (simp add: color_to_rgba_def rgba_to_color_def int_bytes_bytes_int)

lemma get_endian_value:
  "cache_valid bo s \<Longrightarrow>
   fst (get_endian bo s) =
     (case bo of LittleEndianHost \<Rightarrow> LITTLE_ENDIAN | BigEndianHost \<Rightarrow> BIG_ENDIAN)"
  by (cases bo)
    (auto simp add: cache_valid_def get_endian_def int_bytes_def Let_def
       LITTLE_ENDIAN_def BIG_ENDIAN_def)

text \<open>
  Claim C9. An external colour \<open>v\<close> carries A in bits 24 to 31, R in bits 16 to 23, G in
  bits 8 to 15 and B in bits 0 to 7. On a little-endian and on a big-endian host alike,
  with a valid endianness cache, \<open>color_to_rgba\<close> applied to the result of
  \<open>convert_color\<close> yields exactly these R, G, B and A bytes.
\<close>

theorem convert_color_unpack:
  assumes "cache_valid bo s"
  shows "color_to_rgba bo (fst (convert_color bo v s)) =
     (ucast (drop_bit 16 v), ucast (drop_bit 8 v), ucast v, ucast (drop_bit 24 v))"
proof -
  have "color_to_rgba bo (fst (convert_color bo v s)) =
     (let orPtr = int_bytes bo v in
      if fst (get_endian bo s) = BIG_ENDIAN then (orPtr ! 1, orPtr ! 2, orPtr ! 3, orPtr ! 0)
      else (orPtr ! 2, orPtr ! 1, orPtr ! 0, orPtr ! 3))"
    by (simp add: convert_color_def color_to_rgba_def int_bytes_bytes_int split_beta Let_def)
  also have "\<dots> = (ucast (drop_bit 16 v), ucast (drop_bit 8 v), ucast v, ucast (drop_bit 24 v))"
    using get_endian_value[OF assms]
    by (cases bo) (simp_all add: int_bytes_def LITTLE_ENDIAN_def BIG_ENDIAN_def)
  finally show ?thesis .
qed

theorem convert_color_unpack_witness:
  "cache_valid BigEndianHost \<lparr>endian = NOT 0, dst_mem = [], src_mem = []\<rparr> \<and>
   color_to_rgba BigEndianHost
     (fst (convert_color BigEndianHost 0xFFFF0000 \<lparr>endian = NOT 0, dst_mem = [], src_mem = []\<rparr>)) =
     (0xFF, 0, 0, 0xFF)"
proof -
  have h: "cache_valid BigEndianHost \<lparr>endian = NOT 0, dst_mem = [], src_mem = []\<rparr>"
    by (simp add: cache_valid_def)
  show ?thesis
    using h convert_color_unpack [OF h, of "0xFFFF0000"] by simp
qed

section \<open>Clipping\<close>

lemma sdiv_nonneg: "0 \<le> n \<Longrightarrow> 0 < r \<Longrightarrow> (n::int) sdiv r = n div r"
  by (simp add: signed_divide_int_def sgn_if)

lemma smod_nonneg: "0 \<le> n \<Longrightarrow> 0 < r \<Longrightarrow> (n::int) smod r = n mod r"
  by (simp add: signed_modulo_int_def sgn_if)

lemma to_size_t_id: "0 \<le> x \<Longrightarrow> x < 2 ^ 64 \<Longrightarrow> to_size_t x = x"
  by (simp add: to_size_t_def)

lemma to_int_id: "- (2 ^ 31) \<le> x \<Longrightarrow> x < 2 ^ 31 \<Longrightarrow> to_int x = x"
  by (simp add: to_int_def)

lemma ptr_plus_id: "- (2 ^ 61) \<le> p + n \<Longrightarrow> p + n < 2 ^ 61 \<Longrightarrow> ptr_plus p n = p + n"
  by (simp add: ptr_plus_def)

text \<open>
  Claim C8. Whenever clipping succeeds, width and height are positive multiples of the
  ratio after each step and the final rectangle lies inside both buffers. The run below
  refutes it for an oversized width: with \<open>src_x = 10\<close>, \<open>width = 2147483647\<close> and a
  source 4 pixels wide, the sum \<open>src_x + width\<close> of line 209 wraps to a negative value,
  so the source edge does not clip; the destination edge then reduces \<open>width\<close> to 4,
  clipping succeeds, and the rectangle ends at column 14 of a source of 4 columns.
\<close>

theorem clip_oversized_width:
  "clip 4 1 4 1 1
     \<lparr>dst_x = 0, dst_y = 0, src_x = 10, src_y = 0, width = 2147483647, height = 1\<rparr> =
   Some \<lparr>dst_x = 0, dst_y = 0, src_x = 10, src_y = 0, width = 4, height = 1\<rparr> \<and>
   \<not> inside 4 1 4 1 1 \<lparr>dst_x = 0, dst_y = 0, src_x = 10, src_y = 0, width = 4, height = 1\<rparr>"
  by code_simp

section \<open>Loads, stores and fills\<close>

declare memset_loop.simps [simp del] memcpy_loop.simps [simp del] bilinear_cols.simps [simp del]
  bilinear_rows.simps [simp del] copy_color_loop.simps [simp del] other_lines.simps [simp del]

lemma buf_set_buf [simp]: "buf (set_buf r xs s) r' = (if r' = r then xs else buf s r')"
  by (cases r; cases r') simp_all

lemma set_buf_set_buf [simp]: "set_buf r ys (set_buf r xs s) = set_buf r ys s"
  by (cases r) simp_all

lemma set_buf_buf [simp]: "set_buf r (buf s r) s = s"
  by (cases r) simp_all

lemma set_buf_fields [simp]:
  "endian (set_buf r xs s) = endian s"
  "src_mem (set_buf Dst xs s) = src_mem s"
  "dst_mem (set_buf Dst xs s) = xs"
  by (cases r) simp_all

lemma then_do_simps [simp]:
  "then_do (Inl e) f = Inl e" "then_do (Inr x) f = f x"
  by (simp_all add: then_do_def)

lemma store_ok:
  "0 \<le> i \<Longrightarrow> i < int (length (buf s r)) \<Longrightarrow>
   store (r, i) v s = Inr (set_buf r ((buf s r)[nat i := v]) s)"
  by (simp add: store_def in_bounds_def)

lemma memset_loop_fill:
  assumes "0 \<le> p" "p \<le> q" "q \<le> int (length (buf s r))"
  shows "memset_loop r p q v s =
     Inr (set_buf r (take (nat p) (buf s r) @ replicate (nat (q - p)) v @ drop (nat q) (buf s r)) s)"
  using assms
proof (induction r p q v s rule: memset_loop.induct)
  case (1 r ptr maxPtr val s)
  show ?case
  proof (cases "ptr < maxPtr")
    case False
    with "1.prems" have "ptr = maxPtr" by simp
    then show ?thesis by (subst memset_loop.simps) simp
  next
    case True
    let ?xs = "buf s r"
    let ?s' = "set_buf r (?xs[nat ptr := val]) s"
    have st: "store (r, ptr) val s = Inr ?s'"
      using True "1.prems" by (simp add: store_ok)
    have ih: "memset_loop r (ptr + 1) maxPtr val ?s' =
        Inr (set_buf r (take (nat (ptr + 1)) (buf ?s' r) @ replicate (nat (maxPtr - (ptr + 1))) val
               @ drop (nat maxPtr) (buf ?s' r)) ?s')"
      using True "1.prems" by (intro "1.IH"[OF True]) simp_all
    have n1: "nat (ptr + 1) = Suc (nat ptr)" using "1.prems" by simp
    have n2: "nat (maxPtr - ptr) = Suc (nat (maxPtr - (ptr + 1)))" using True by simp
    have lt: "nat ptr < length ?xs" using True "1.prems" by simp
    have lt2: "nat ptr < nat maxPtr" using True "1.prems" by simp
    have "take (Suc (nat ptr)) (?xs[nat ptr := val]) = take (nat ptr) ?xs @ [val]"
      using lt by (simp add: take_Suc_conv_app_nth)
    moreover have "drop (nat maxPtr) (?xs[nat ptr := val]) = drop (nat maxPtr) ?xs"
      using lt2 by simp
    ultimately show ?thesis
      using True st ih by (subst memset_loop.simps) (simp add: n1 n2)
  qed
qed

lemma memset_int_fill:
  assumes "0 \<le> p" "0 \<le> n" "p + n \<le> int (length (buf s r))" "p + n < 2 ^ 61"
  shows "memset_int (r, p) v n s =
     Inr (set_buf r (take (nat p) (buf s r) @ replicate (nat n) v @ drop (nat (p + n)) (buf s r)) s)"
proof -
  have "ptr_plus p n = p + n" using assms by (intro ptr_plus_id) simp_all
  then show ?thesis
    using memset_loop_fill[of p "p + n" s r v] assms by (simp add: memset_int_def)
qed

section \<open>Failed clipping\<close>

lemma clip_ratio_nonpos: "ratio \<le> 0 \<Longrightarrow> clip dst_w dst_h src_w src_h ratio g = None"
  by (simp add: clip_def)

lemma convert_color_state:
  "snd (convert_color bo c s) = snd (get_endian bo s)"
  "dst_mem (snd (get_endian bo s)) = dst_mem s"
  "src_mem (snd (get_endian bo s)) = src_mem s"
  by (simp_all add: convert_color_def get_endian_def Let_def split_beta)



text \<open>
  Claim C7. When clipping fails, at the ratio check, at the rounding or at any of the four
  emptiness checks of lines 187, 204, 217 and 230, and blank filling is off, the call
  returns the state it was given: no byte of the destination has changed.
\<close>

theorem copy_pixels_clip_fails_no_fill:
  assumes "clip dst_w dst_h src_w src_h ratio
             \<lparr>dst_x = dst_x0, dst_y = dst_y0, src_x = src_x0, src_y = src_y0,
              width = width0, height = height0\<rparr> = None"
  shows "copy_pixels bo dst_w dst_h dst_x0 dst_y0 src_w src_h src_x0 src_y0 width0 height0
           ratio False fill_color s = Inr s"
  using assms by (simp add: copy_pixels_def copy_pixels_internal_def)

theorem copy_pixels_clip_fails_no_fill_witness:
  "clip 4 1 4 1 1 \<lparr>dst_x = 0, dst_y = 0, src_x = - 10, src_y = 0, width = 4, height = 1\<rparr> = None \<and>
   copy_pixels LittleEndianHost 4 1 0 0 4 1 (- 10) 0 4 1 1 False 0xFFFF0000
     \<lparr>endian = NOT 0, dst_mem = [7, 7, 7, 7], src_mem = [1, 2, 3, 4]\<rparr> =
   Inr \<lparr>endian = NOT 0, dst_mem = [7, 7, 7, 7], src_mem = [1, 2, 3, 4]\<rparr>"
proof -
  have h: "clip 4 1 4 1 1
      \<lparr>dst_x = 0, dst_y = 0, src_x = - 10, src_y = 0, width = 4, height = 1\<rparr> = None"
    by code_simp
  from copy_pixels_clip_fails_no_fill[OF h] show ?thesis using h by simp
qed

section \<open>The source is only read\<close>

lemma src_kept_Inr: "src_mem (sel x) = m \<Longrightarrow> src_kept m sel (Inr x)"
  by (simp add: src_kept_def)

lemma src_kept_Inl: "src_mem (snd e) = m \<Longrightarrow> src_kept m sel (Inl e)"
  by (simp add: src_kept_def)

lemma src_kept_then_do:
  assumes "src_kept m sel a"
    and "\<And>x. src_mem (sel x) = m \<Longrightarrow> src_kept m sel' (f x)"
  shows "src_kept m sel' (then_do a f)"
  using assms by (cases a) (auto simp add: src_kept_def)

lemma src_kept_if:
  assumes "c \<Longrightarrow> src_kept m sel a" and "\<not> c \<Longrightarrow> src_kept m sel b"
  shows "src_kept m sel (if c then a else b)"
  using assms by simp

lemma src_kept_store: "src_mem s = m \<Longrightarrow> src_kept m (\<lambda>s. s) (store (Dst, i) v s)"
  by (simp add: store_def src_kept_def)

lemma src_kept_memset_loop:
  "src_mem s = m \<Longrightarrow> src_kept m (\<lambda>s. s) (memset_loop Dst p q v s)"
proof (induction "Dst" p q v s rule: memset_loop.induct)
  case (1 ptr maxPtr val s)
  show ?case
    apply (subst memset_loop.simps)
    apply (rule src_kept_if)
     apply (rule src_kept_then_do)
      apply (rule src_kept_store)
      apply (rule "1.prems")
     apply (erule "1.hyps")
     apply assumption
    apply (rule src_kept_Inr)
    apply (rule "1.prems")
    done
qed

lemma src_kept_memset_int:
  "src_mem s = m \<Longrightarrow> src_kept m (\<lambda>s. s) (memset_int (void_plus Dst p) v n s)"
  by (simp add: memset_int_def void_plus_def src_kept_memset_loop)

lemma src_kept_memcpy_loop:
  "src_mem s = m \<Longrightarrow> src_kept m (\<lambda>s. s) (memcpy_loop (Dst, d) src i n s)"
proof (induction "(Dst, d)" src i n s rule: memcpy_loop.induct)
  case (1 src i n s)
  show ?case
    apply (subst memcpy_loop.simps)
    apply (rule src_kept_if)
     apply (cases "load (fst src, snd src + i) s")
      apply (simp add: src_kept_def "1.prems")
     apply (simp only: option.case fst_conv snd_conv)
     apply (rule src_kept_then_do)
      apply (rule src_kept_store)
      apply (rule "1.prems")
     apply (erule (1) "1.hyps")
     apply assumption
    apply (rule src_kept_Inr)
    apply (rule "1.prems")
    done
qed

lemma src_kept_bilinear_color:
  "src_mem s = m \<Longrightarrow> src_kept m (\<lambda>s. s) (bilinear_color bo ptr w ratio (Dst, d) s)"
  using src_kept_store[of s m d]
  by (auto simp add: bilinear_color_def Let_def src_kept_def split: option.split)

lemma src_kept_copy_color_loop:
  "fst dst = Dst \<Longrightarrow> src_mem s = m \<Longrightarrow>
   src_kept m (\<lambda>s. s) (copy_color_loop bo dst src src_w count ratio i s)"
proof (induction bo dst src src_w count ratio i s rule: copy_color_loop.induct)
  case (1 bo dst src src_w count ratio i s)
  obtain d where dst: "dst = (Dst, d)" using "1.prems"(1) by (cases dst) simp
  show ?case
    apply (subst copy_color_loop.simps)
    apply (rule src_kept_if)
     apply (rule src_kept_then_do)
      apply (simp only: dst)
      apply (rule src_kept_bilinear_color)
      apply (rule "1.prems")
     apply (erule "1.IH")
      apply (simp add: "1.prems")
     apply assumption
    apply (rule src_kept_Inr)
    apply (rule "1.prems")
    done
qed

lemma src_kept_copy_color:
  "src_mem s = m \<Longrightarrow>
   src_kept m (\<lambda>s. s) (copy_color bo (void_plus Dst p) src src_w count ratio s)"
  unfolding copy_color_def memcpy_def copy_color_internal_def void_plus_def
  by (intro src_kept_if src_kept_memcpy_loop src_kept_copy_color_loop src_kept_Inl) simp_all

lemma src_kept_other_lines:
  "src_mem s = m \<Longrightarrow>
   src_kept m snd (other_lines bo fill_blank fill_color dst_blank_length src_w wd ht ratio
     src_stride line dst_pos src_pos s)"
proof (induction bo fill_blank fill_color dst_blank_length src_w wd ht ratio
     src_stride line dst_pos src_pos s rule: other_lines.induct)
  case (1 bo fill_blank fill_color dst_blank_length src_w wd ht ratio src_stride line dst_pos src_pos s)
  show ?case
    apply (subst other_lines.simps)
    apply (rule src_kept_if)
     apply (rule src_kept_then_do)
      apply (rule src_kept_if)
       apply (rule src_kept_memset_int)
       apply (rule "1.prems")
      apply (rule src_kept_Inr)
      apply (rule "1.prems")
     apply (simp only: Let_def)
     apply (rule src_kept_then_do)
      apply (erule src_kept_copy_color)
     apply (erule "1.IH")
      apply (rule refl)
     apply assumption
    apply (rule src_kept_Inr)
    apply (simp add: "1.prems")
    done
qed

lemma src_kept_copy_pixels_internal:
  "src_mem s = m \<Longrightarrow>
   src_kept m snd (copy_pixels_internal bo dst_w dst_h dst_x0 dst_y0 src_w src_h src_x0 src_y0
     width0 height0 ratio fill_blank color s)"
proof (cases "clip dst_w dst_h src_w src_h ratio
             \<lparr>dst_x = dst_x0, dst_y = dst_y0, src_x = src_x0, src_y = src_y0,
              width = width0, height = height0\<rparr>")
  case None
  assume "src_mem s = m"
  with None show ?thesis by (simp add: copy_pixels_internal_def src_kept_def)
next
  case (Some g)
  assume m: "src_mem s = m"
  show ?thesis
    apply (simp only: copy_pixels_internal_def Some option.case Let_def)
    apply (rule src_kept_then_do)
     apply (rule src_kept_if)
      apply (rule src_kept_memset_int)
      apply (rule m)
     apply (rule src_kept_Inr)
     apply (rule m)
    apply (rule src_kept_then_do)
     apply (erule src_kept_copy_color)
    apply (rule src_kept_then_do)
     apply (erule src_kept_other_lines)
    apply (simp only: split_beta)
    apply (rule src_kept_then_do)
     apply (rule src_kept_if)
      apply (erule src_kept_memset_int)
     apply (erule src_kept_Inr)
    apply (rule src_kept_Inr)
    apply simp
    done
qed


section \<open>Row copier\<close>

lemma bilinear_color_averaged:
  "bilinear_color bo ptr w ratio result s =
     (case averaged_pixel bo ptr w ratio s of
        None \<Rightarrow> Inl (OutOfBounds, s)
      | Some c \<Rightarrow> store result c s)"
  by (simp add: bilinear_color_def averaged_pixel_def Let_def split: option.split)

lemma load_cong: "buf s (fst p) = buf s' (fst p) \<Longrightarrow> load p s = load p s'"
  by (simp add: load_def in_bounds_def)

lemma bilinear_cols_cong:
  "buf s (fst ptr) = buf s' (fst ptr) \<Longrightarrow>
   bilinear_cols bo ptr w ratio count i j acc s = bilinear_cols bo ptr w ratio count i j acc s'"
proof (induction bo ptr w ratio count i j acc s rule: bilinear_cols.induct)
  case (1 bo ptr w ratio count i j acc s)
  have l: "load (fst ptr, snd ptr + w * i + j) s = load (fst ptr, snd ptr + w * i + j) s'"
    using "1.prems" by (intro load_cong) simp
  note u = bilinear_cols.simps[of bo ptr w ratio count i j acc s]
    bilinear_cols.simps[of bo ptr w ratio count i j acc s']
  show ?case
  proof (cases "j < ratio")
    case False
    then show ?thesis unfolding u by simp
  next
    case True
    show ?thesis
    proof (cases "load (fst ptr, snd ptr + w * i + j) s")
      case None
      with True l show ?thesis unfolding u by simp
    next
      case (Some c)
      have "load (fst ptr, snd ptr + w * i + j) s' = Some c" using l Some by simp
      with True Some "1.IH"[OF True Some "1.prems"] show ?thesis unfolding u by simp
    qed
  qed
qed

lemma bilinear_rows_cong:
  "buf s (fst ptr) = buf s' (fst ptr) \<Longrightarrow>
   bilinear_rows bo ptr w ratio count i acc s = bilinear_rows bo ptr w ratio count i acc s'"
proof (induction bo ptr w ratio count i acc s rule: bilinear_rows.induct)
  case (1 bo ptr w ratio count i acc s)
  have c: "bilinear_cols bo ptr w ratio count i 0 acc s = bilinear_cols bo ptr w ratio count i 0 acc s'"
    using "1.prems" by (rule bilinear_cols_cong)
  note u = bilinear_rows.simps[of bo ptr w ratio count i acc s]
    bilinear_rows.simps[of bo ptr w ratio count i acc s']
  show ?case
  proof (cases "i < ratio")
    case False
    then show ?thesis unfolding u by simp
  next
    case True
    show ?thesis
    proof (cases "bilinear_cols bo ptr w ratio count i 0 acc s")
      case None
      with True c show ?thesis unfolding u by simp
    next
      case (Some acc')
      have "bilinear_cols bo ptr w ratio count i 0 acc s' = Some acc'" using c Some by simp
      with True Some "1.IH"[OF True Some "1.prems"] show ?thesis unfolding u by simp
    qed
  qed
qed

lemma averaged_pixel_cong:
  "src_mem s = src_mem s' \<Longrightarrow>
   averaged_pixel bo (Src, p) w ratio s = averaged_pixel bo (Src, p) w ratio s'"
  using bilinear_rows_cong[of s "(Src, p)" s'] by (simp add: averaged_pixel_def)

lemma bilinear_cols_Some:
  assumes "\<And>j'. j \<le> j' \<Longrightarrow> j' < ratio \<Longrightarrow> in_bounds s (fst ptr, snd ptr + w * i + j')"
  shows "\<exists>acc'. bilinear_cols bo ptr w ratio count i j acc s = Some acc'"
  using assms
proof (induction bo ptr w ratio count i j acc s rule: bilinear_cols.induct)
  case (1 bo ptr w ratio count i j acc s)
  show ?case
  proof (cases "j < ratio")
    case False
    then show ?thesis by (subst bilinear_cols.simps) simp
  next
    case True
    then have "in_bounds s (fst ptr, snd ptr + w * i + j)" using "1.prems" by simp
    then obtain c where l: "load (fst ptr, snd ptr + w * i + j) s = Some c"
      by (simp add: load_def)
    have "\<exists>acc'. bilinear_cols bo ptr w ratio count i (j + 1) (average_pixel bo c count acc) s = Some acc'"
      using "1.prems" by (intro "1.IH"[OF True l]) simp
    with True l show ?thesis by (subst bilinear_cols.simps) simp
  qed
qed

lemma bilinear_rows_Some:
  assumes "\<And>i' j'. i \<le> i' \<Longrightarrow> i' < ratio \<Longrightarrow> 0 \<le> j' \<Longrightarrow> j' < ratio \<Longrightarrow>
             in_bounds s (fst ptr, snd ptr + w * i' + j')"
  shows "\<exists>acc'. bilinear_rows bo ptr w ratio count i acc s = Some acc'"
  using assms
proof (induction bo ptr w ratio count i acc s rule: bilinear_rows.induct)
  case (1 bo ptr w ratio count i acc s)
  show ?case
  proof (cases "i < ratio")
    case False
    then show ?thesis by (subst bilinear_rows.simps) simp
  next
    case True
    obtain acc1 where c: "bilinear_cols bo ptr w ratio count i 0 acc s = Some acc1"
      using bilinear_cols_Some[of 0 ratio s ptr w i bo count acc] "1.prems" True by auto
    have "\<exists>acc'. bilinear_rows bo ptr w ratio count (i + 1) acc1 s = Some acc'"
      using "1.prems" by (intro "1.IH"[OF True c]) simp
    with True c show ?thesis by (subst bilinear_rows.simps) simp
  qed
qed

lemma averaged_pixel_Some:
  assumes "\<And>i j. 0 \<le> i \<Longrightarrow> i < ratio \<Longrightarrow> 0 \<le> j \<Longrightarrow> j < ratio \<Longrightarrow>
             0 \<le> p + w * i + j \<and> p + w * i + j < int (length (src_mem s))"
  shows "\<exists>c. averaged_pixel bo (Src, p) w ratio s = Some c"
  using bilinear_rows_Some[of 0 ratio s "(Src, p)" w bo "ratio * ratio" no_averages] assms
  by (auto simp add: averaged_pixel_def in_bounds_def)

lemma store_dst:
  "0 \<le> i \<Longrightarrow> i < int (length (dst_mem s)) \<Longrightarrow>
   store (Dst, i) v s = Inr (s\<lparr>dst_mem := (dst_mem s)[nat i := v]\<rparr>)"
  by (simp add: store_def in_bounds_def)

lemma copy_color_loop_rows:
  assumes "0 \<le> d" "i \<le> count" "d + (count - i) \<le> int (length (dst_mem s))"
    and "\<And>k. 0 \<le> k \<Longrightarrow> k < count - i \<Longrightarrow>
           \<exists>c. averaged_pixel bo (Src, sp + k * ratio) src_w ratio s = Some c"
  shows "\<exists>s'. copy_color_loop bo (Dst, d) (Src, sp) src_w count ratio i s = Inr s' \<and>
      src_mem s' = src_mem s \<and> endian s' = endian s \<and>
      length (dst_mem s') = length (dst_mem s) \<and>
      (\<forall>j. j < nat d \<or> nat (d + (count - i)) \<le> j \<longrightarrow> dst_mem s' ! j = dst_mem s ! j) \<and>
      (\<forall>k. 0 \<le> k \<and> k < count - i \<longrightarrow>
           averaged_pixel bo (Src, sp + k * ratio) src_w ratio s = Some (dst_mem s' ! nat (d + k)))"
  using assms
proof (induction "nat (count - i)" arbitrary: d sp i s)
  case 0
  then have "\<not> i < count" by simp
  then show ?case
    by (subst copy_color_loop.simps) auto
next
  case (Suc n)
  from Suc.hyps(2) have lt: "i < count" by simp
  obtain c where c: "averaged_pixel bo (Src, sp) src_w ratio s = Some c"
    using Suc.prems(4)[of 0] lt by auto
  let ?s1 = "s\<lparr>dst_mem := (dst_mem s)[nat d := c]\<rparr>"
  have d_lt: "d < int (length (dst_mem s))" using Suc.prems(3) lt by simp
  have b: "bilinear_color bo (Src, sp) src_w ratio (Dst, d) s = Inr ?s1"
    using c Suc.prems(1) d_lt by (simp add: bilinear_color_averaged store_dst)
  have av: "averaged_pixel bo (Src, sp + ratio + k * ratio) src_w ratio ?s1 =
            averaged_pixel bo (Src, sp + (k + 1) * ratio) src_w ratio s" for k
    using averaged_pixel_cong[of ?s1 s bo "sp + (k + 1) * ratio" src_w ratio]
    by (simp add: algebra_simps)
  have "\<exists>s'. copy_color_loop bo (Dst, d + 1) (Src, sp + ratio) src_w count ratio (i + 1) ?s1 = Inr s' \<and>
      src_mem s' = src_mem ?s1 \<and> endian s' = endian ?s1 \<and>
      length (dst_mem s') = length (dst_mem ?s1) \<and>
      (\<forall>j. j < nat (d + 1) \<or> nat (d + 1 + (count - (i + 1))) \<le> j \<longrightarrow>
           dst_mem s' ! j = dst_mem ?s1 ! j) \<and>
      (\<forall>k. 0 \<le> k \<and> k < count - (i + 1) \<longrightarrow>
           averaged_pixel bo (Src, sp + ratio + k * ratio) src_w ratio ?s1 =
             Some (dst_mem s' ! nat (d + 1 + k)))"
  proof (rule Suc.hyps(1))
    show "n = nat (count - (i + 1))" using Suc.hyps(2) by simp
    show "0 \<le> d + 1" using Suc.prems(1) by simp
    show "i + 1 \<le> count" using lt by simp
    show "d + 1 + (count - (i + 1)) \<le> int (length (dst_mem ?s1))" using Suc.prems(3) by simp
    fix k :: int
    assume "0 \<le> k" "k < count - (i + 1)"
    then show "\<exists>c. averaged_pixel bo (Src, sp + ratio + k * ratio) src_w ratio ?s1 = Some c"
      using Suc.prems(4)[of "k + 1"] by (simp add: av)
  qed
  then obtain s' where
    run: "copy_color_loop bo (Dst, d + 1) (Src, sp + ratio) src_w count ratio (i + 1) ?s1 = Inr s'" and
    fr: "src_mem s' = src_mem s" "endian s' = endian s" "length (dst_mem s') = length (dst_mem s)" and
    out: "\<And>j. j < nat (d + 1) \<or> nat (d + 1 + (count - (i + 1))) \<le> j \<Longrightarrow>
           dst_mem s' ! j = dst_mem ?s1 ! j" and
    px: "\<And>k. 0 \<le> k \<Longrightarrow> k < count - (i + 1) \<Longrightarrow>
           averaged_pixel bo (Src, sp + (k + 1) * ratio) src_w ratio s =
             Some (dst_mem s' ! nat (d + 1 + k))"
    by (auto simp add: av)
  have step: "copy_color_loop bo (Dst, d) (Src, sp) src_w count ratio i s = Inr s'"
    using lt b run by (subst copy_color_loop.simps) simp
  have outside: "dst_mem s' ! j = dst_mem s ! j" if "j < nat d \<or> nat (d + (count - i)) \<le> j" for j
  proof -
    have "dst_mem s' ! j = dst_mem ?s1 ! j"
      using that lt Suc.prems(1) by (intro out) auto
    moreover have "j \<noteq> nat d" using that lt Suc.prems(1) by auto
    ultimately show ?thesis by simp
  qed
  have pixel: "averaged_pixel bo (Src, sp + k * ratio) src_w ratio s = Some (dst_mem s' ! nat (d + k))"
    if "0 \<le> k" "k < count - i" for k
  proof (cases "k = 0")
    case True
    have "dst_mem s' ! nat d = dst_mem ?s1 ! nat d"
      using Suc.prems(1) by (intro out) auto
    also have "\<dots> = c" using d_lt Suc.prems(1) by simp
    finally show ?thesis using True c by simp
  next
    case False
    with that have "0 \<le> k - 1" "k - 1 < count - (i + 1)" by simp_all
    from px[OF this] show ?thesis by (simp add: algebra_simps)
  qed
  show ?case
    using step fr outside pixel by blast
qed




section \<open>Copying without reduction\<close>

lemma add_int_id: "- (2 ^ 31) \<le> a + b \<Longrightarrow> a + b < 2 ^ 31 \<Longrightarrow> add_int a b = a + b"
  by (simp add: add_int_def to_int_id)

lemma sub_int_id: "- (2 ^ 31) \<le> a - b \<Longrightarrow> a - b < 2 ^ 31 \<Longrightarrow> sub_int a b = a - b"
  by (simp add: sub_int_def to_int_id)

lemma mul_int_id: "- (2 ^ 31) \<le> a * b \<Longrightarrow> a * b < 2 ^ 31 \<Longrightarrow> mul_int a b = a * b"
  by (simp add: mul_int_def to_int_id)

lemma memset_int_effect:
  assumes "0 \<le> p" "0 \<le> n" "p + n \<le> int (length (dst_mem s))"
    and "int (length (dst_mem s)) * 4 < 2 ^ 31"
  shows "\<exists>s'. memset_int (Dst, p) v n s = Inr s' \<and>
      src_mem s' = src_mem s \<and> endian s' = endian s \<and>
      length (dst_mem s') = length (dst_mem s) \<and>
      (\<forall>j. j < nat p \<longrightarrow> dst_mem s' ! j = dst_mem s ! j)"
proof -
  let ?xs = "dst_mem s"
  let ?ys = "take (nat p) ?xs @ replicate (nat n) v @ drop (nat (p + n)) ?xs"
  have "memset_int (Dst, p) v n s = Inr (set_buf Dst ?ys s)"
    using memset_int_fill[of p n s Dst v] assms by simp
  moreover have "length ?ys = length ?xs" using assms by (simp add: nat_add_distrib)
  moreover have "?ys ! j = ?xs ! j" if "j < nat p" for j
    using that assms by (simp add: nth_append)
  ultimately show ?thesis by simp
qed

lemma memcpy_loop_copy:
  assumes "0 \<le> d" "0 \<le> sp" "0 \<le> i" "i \<le> n" "d + n \<le> int (length (dst_mem s))"
    "sp + n \<le> int (length (src_mem s))"
  shows "memcpy_loop (Dst, d) (Src, sp) i n s =
     Inr (s\<lparr>dst_mem := take (nat (d + i)) (dst_mem s)
                 @ take (nat (n - i)) (drop (nat (sp + i)) (src_mem s))
                 @ drop (nat (d + n)) (dst_mem s)\<rparr>)"
  using assms
proof (induction "nat (n - i)" arbitrary: i s)
  case 0
  then have "i = n" by simp
  then show ?case by (subst memcpy_loop.simps) simp
next
  case (Suc m)
  from Suc.hyps(2) have lt: "i < n" by simp
  let ?xs = "dst_mem s" and ?ys = "src_mem s"
  let ?v = "?ys ! nat (sp + i)"
  let ?s1 = "s\<lparr>dst_mem := ?xs[nat (d + i) := ?v]\<rparr>"
  have ld: "load (Src, sp + i) s = Some ?v"
    using Suc.prems lt by (simp add: load_def in_bounds_def)
  have st: "store (Dst, d + i) ?v s = Inr ?s1"
    using Suc.prems lt by (simp add: store_dst)
  have ih: "memcpy_loop (Dst, d) (Src, sp) (i + 1) n ?s1 =
     Inr (?s1\<lparr>dst_mem := take (nat (d + (i + 1))) (dst_mem ?s1)
                 @ take (nat (n - (i + 1))) (drop (nat (sp + (i + 1))) (src_mem ?s1))
                 @ drop (nat (d + n)) (dst_mem ?s1)\<rparr>)"
    using Suc.prems lt Suc.hyps(2) by (intro Suc.hyps(1)) simp_all
  have n1: "nat (d + (i + 1)) = Suc (nat (d + i))" using Suc.prems by simp
  have n2: "nat (sp + (i + 1)) = Suc (nat (sp + i))" using Suc.prems by simp
  have n3: "nat (n - i) = Suc (nat (n - (i + 1)))" using lt by simp
  have l1: "nat (d + i) < length ?xs" using Suc.prems lt by simp
  have l2: "nat (sp + i) < length ?ys" using Suc.prems lt by simp
  have l3: "nat (d + i) < nat (d + n)" using Suc.prems lt by simp
  have a: "take (Suc (nat (d + i))) (?xs[nat (d + i) := ?v]) = take (nat (d + i)) ?xs @ [?v]"
    using l1 by (simp add: take_Suc_conv_app_nth)
  have b: "drop (nat (d + n)) (?xs[nat (d + i) := ?v]) = drop (nat (d + n)) ?xs"
    using l3 by simp
  have c: "take (Suc (nat (n - (i + 1)))) (drop (nat (sp + i)) ?ys) =
      ?v # take (nat (n - (i + 1))) (drop (Suc (nat (sp + i))) ?ys)"
    using l2 by (simp add: Cons_nth_drop_Suc[symmetric])
  show ?case
    using lt ld st ih
    by (subst memcpy_loop.simps) (simp add: n1 n2 n3 a b c)
qed

lemma copy_color_ratio_1_effect:
  assumes "0 \<le> d" "0 \<le> sp" "0 \<le> w" "w * 4 < 2 ^ 31" "d + w \<le> int (length (dst_mem s))"
    "sp + w \<le> int (length (src_mem s))"
  shows "\<exists>s'. copy_color bo (Dst, d) (Src, sp) src_w w 1 s = Inr s' \<and>
      src_mem s' = src_mem s \<and> endian s' = endian s \<and>
      length (dst_mem s') = length (dst_mem s) \<and>
      (\<forall>j. j < nat d \<longrightarrow> dst_mem s' ! j = dst_mem s ! j) \<and>
      (\<forall>i. 0 \<le> i \<and> i < w \<longrightarrow> dst_mem s' ! nat (d + i) = src_mem s ! nat (sp + i))"
proof -
  let ?xs = "dst_mem s" and ?ys = "src_mem s"
  let ?zs = "take (nat d) ?xs @ take (nat w) (drop (nat sp) ?ys) @ drop (nat (d + w)) ?xs"
  have "mul_int w 4 = w * 4" using assms by (intro mul_int_id) simp_all
  then have "to_size_t (mul_int w 4) div 4 = w" using assms by (simp add: to_size_t_id)
  then have run: "copy_color bo (Dst, d) (Src, sp) src_w w 1 s = Inr (s\<lparr>dst_mem := ?zs\<rparr>)"
    using memcpy_loop_copy[of d sp 0 w s] assms by (simp add: copy_color_def memcpy_def)
  have len: "length ?zs = length ?xs" using assms by (simp add: nat_add_distrib)
  have pre: "?zs ! j = ?xs ! j" if "j < nat d" for j
    using that assms by (simp add: nth_append)
  have row: "?zs ! nat (d + i) = ?ys ! nat (sp + i)" if "0 \<le> i" "i < w" for i
  proof -
    let ?mid = "take (nat w) (drop (nat sp) ?ys)"
    have di: "nat (d + i) = nat d + nat i" using assms that by (simp add: nat_add_distrib)
    have si: "nat (sp + i) = nat sp + nat i" using assms that by (simp add: nat_add_distrib)
    have iw: "nat i < nat w" using that by simp
    have ld: "length (take (nat d) ?xs) = nat d" using assms by simp
    have lm: "length ?mid = nat w" using assms by (simp add: nat_add_distrib)
    have "?zs ! (nat d + nat i) = (?mid @ drop (nat (d + w)) ?xs) ! nat i"
      using ld by (metis nth_append_length_plus)
    also have "\<dots> = ?mid ! nat i" using iw lm by (simp add: nth_append)
    also have "\<dots> = ?ys ! (nat sp + nat i)"
    proof -
      have "nat sp \<le> length ?ys" using assms by simp
      then show ?thesis using iw by simp
    qed
    finally show ?thesis by (simp add: di si)
  qed
  show ?thesis using run len pre row by simp
qed

lemma void_plus_times_4 [simp]: "void_plus r (p * 4) = (r, p)"
  by (simp add: void_plus_def)

lemma gap_fill_effect:
  assumes "0 \<le> p" "0 \<le> n" "p + n \<le> int (length (dst_mem s))"
    and "int (length (dst_mem s)) * 4 < 2 ^ 31"
  shows "\<exists>s'. (if fb \<and> n * 4 \<noteq> 0 then memset_int (Dst, p) v (n * 4 div 4) s else Inr s) = Inr s' \<and>
      src_mem s' = src_mem s \<and> endian s' = endian s \<and>
      length (dst_mem s') = length (dst_mem s) \<and>
      (\<forall>j. j < nat p \<longrightarrow> dst_mem s' ! j = dst_mem s ! j)"
  using memset_int_effect[OF assms, of v] by auto

lemma other_lines_ratio_1:
  assumes "0 < w" "w \<le> W" "0 \<le> sw"
    and "line \<le> h"
    and "0 \<le> P" "P + (h - line) * W \<le> int (length (dst_mem s))"
    and "int (length (dst_mem s)) * 4 < 2 ^ 31"
    and "int (length (src_mem s)) * 4 < 2 ^ 31"
    and "0 \<le> Q"
    and "line < h \<longrightarrow> sp = Q * 4 \<and> Q + (h - line - 1) * sw + w \<le> int (length (src_mem s))"
  shows "\<exists>s'. other_lines bo fb c ((W - w) * 4) sw w h 1 (sw * 4) line (P * 4) sp s =
        Inr ((P + (h - line) * W) * 4, s') \<and>
      src_mem s' = src_mem s \<and> endian s' = endian s \<and>
      length (dst_mem s') = length (dst_mem s) \<and>
      (\<forall>j. j < nat P \<longrightarrow> dst_mem s' ! j = dst_mem s ! j) \<and>
      (\<forall>k i. 0 \<le> k \<and> k < h - line \<and> 0 \<le> i \<and> i < w \<longrightarrow>
         dst_mem s' ! nat (P + k * W + (W - w) + i) = src_mem s ! nat (Q + k * sw + i))"
  using assms(4-)
proof (induction "nat (h - line)" arbitrary: line P Q sp s)
  case 0
  then have "\<not> line < h" "h - line = 0" by simp_all
  then show ?case
    by (subst other_lines.simps) auto
next
  case (Suc n)
  note w = assms(1-3)
  from Suc.hyps(2) have lt: "line < h" by simp
  let ?L = "int (length (dst_mem s))" and ?Ls = "int (length (src_mem s))"
  note P0 = Suc.prems(2) and PL = Suc.prems(3) and L4 = Suc.prems(4) and Ls4 = Suc.prems(5)
    and Q0 = Suc.prems(6)
  have sp: "sp = Q * 4" and Qh: "Q + (h - line - 1) * sw + w \<le> ?Ls"
    using Suc.prems(7) lt by simp_all
  have hl: "(h - line) * W = W + (h - (line + 1)) * W" by (simp add: algebra_simps)
  have "0 \<le> (h - (line + 1)) * W" using lt w by simp
  then have PW: "P + W \<le> ?L" using PL hl by simp
  have hs: "(h - line - 1) * sw = (h - (line + 1)) * sw" by simp
  have "0 \<le> (h - (line + 1)) * sw" using lt w by simp
  then have Qw: "Q + w \<le> ?Ls" using Qh hs by simp
  \<comment> \<open>the gap before the row\<close>
  obtain s1 where
    g: "(if fb \<and> (W - w) * 4 \<noteq> 0 then memset_int (Dst, P) c ((W - w) * 4 div 4) s else Inr s) = Inr s1"
    and s1: "src_mem s1 = src_mem s" "endian s1 = endian s" "length (dst_mem s1) = length (dst_mem s)"
    and s1p: "\<And>j. j < nat P \<Longrightarrow> dst_mem s1 ! j = dst_mem s ! j"
    using gap_fill_effect[of P "W - w" s fb c] P0 w PW L4 by auto
  have pos: "to_int (to_size_t (to_size_t (P * 4) + (W - w) * 4)) = (P + W - w) * 4"
  proof -
    have a: "to_size_t (P * 4) = P * 4"
      using P0 L4 PW w by (intro to_size_t_id) simp_all
    have b: "to_size_t (P * 4 + (W - w) * 4) = P * 4 + (W - w) * 4"
      using P0 L4 PW w by (intro to_size_t_id) simp_all
    have c: "to_int (P * 4 + (W - w) * 4) = P * 4 + (W - w) * 4"
      using P0 L4 PW w by (intro to_int_id) simp_all
    show ?thesis unfolding a b c by (simp add: algebra_simps)
  qed
  \<comment> \<open>the row\<close>
  obtain s2 where
    r: "copy_color bo (Dst, P + W - w) (Src, Q) sw w 1 s1 = Inr s2"
    and s2: "src_mem s2 = src_mem s" "endian s2 = endian s" "length (dst_mem s2) = length (dst_mem s)"
    and s2p: "\<And>j. j < nat (P + W - w) \<Longrightarrow> dst_mem s2 ! j = dst_mem s1 ! j"
    and s2r: "\<And>i. 0 \<le> i \<Longrightarrow> i < w \<Longrightarrow> dst_mem s2 ! nat (P + W - w + i) = src_mem s ! nat (Q + i)"
    using copy_color_ratio_1_effect[of "P + W - w" Q w s1 bo sw] P0 L4 Q0 w PW Qw s1
    by auto
  \<comment> \<open>the positions after the row\<close>
  have e1: "add_int ((P + W - w) * 4) (mul_int w 4) = (P + W) * 4"
  proof -
    have "mul_int w 4 = w * 4" using w PW P0 L4 by (intro mul_int_id) simp_all
    moreover have "add_int ((P + W - w) * 4) (w * 4) = (P + W - w) * 4 + w * 4"
      using w PW P0 L4 by (intro add_int_id) simp_all
    ultimately show ?thesis by simp
  qed
  define sp' where "sp' = add_int (Q * 4) (sw * 4)"
  have sp': "line + 1 < h \<longrightarrow>
      sp' = (Q + sw) * 4 \<and> Q + sw + (h - (line + 1) - 1) * sw + w \<le> int (length (src_mem s2))"
  proof
    assume l1: "line + 1 < h"
    have eq: "Q + sw + (h - (line + 1) - 1) * sw + w = Q + (h - line - 1) * sw + w"
      by (simp add: algebra_simps)
    have "0 \<le> (h - (line + 1) - 1) * sw" using l1 w by simp
    then have "Q + sw + w \<le> ?Ls" using Qh eq by simp
    then have "add_int (Q * 4) (sw * 4) = Q * 4 + sw * 4"
      using Q0 w Ls4 by (intro add_int_id) simp_all
    then show "sp' = (Q + sw) * 4 \<and> Q + sw + (h - (line + 1) - 1) * sw + w \<le> int (length (src_mem s2))"
      using Qh eq s2 by (simp add: sp'_def)
  qed
  \<comment> \<open>the remaining rows\<close>
  have "\<exists>s'. other_lines bo fb c ((W - w) * 4) sw w h 1 (sw * 4) (line + 1)
           ((P + W) * 4) sp' s2 =
        Inr ((P + W + (h - (line + 1)) * W) * 4, s') \<and>
      src_mem s' = src_mem s2 \<and> endian s' = endian s2 \<and>
      length (dst_mem s') = length (dst_mem s2) \<and>
      (\<forall>j. j < nat (P + W) \<longrightarrow> dst_mem s' ! j = dst_mem s2 ! j) \<and>
      (\<forall>k i. 0 \<le> k \<and> k < h - (line + 1) \<and> 0 \<le> i \<and> i < w \<longrightarrow>
         dst_mem s' ! nat (P + W + k * W + (W - w) + i) = src_mem s2 ! nat (Q + sw + k * sw + i))"
  proof (rule Suc.hyps(1))
    show "n = nat (h - (line + 1))" using Suc.hyps(2) by simp
    show "line + 1 \<le> h" using lt by simp
    show "0 \<le> P + W" using P0 w by simp
    show "P + W + (h - (line + 1)) * W \<le> int (length (dst_mem s2))"
      using PL hl s2 by simp
    show "int (length (dst_mem s2)) * 4 < 2 ^ 31" using L4 s2 by simp
    show "int (length (src_mem s2)) * 4 < 2 ^ 31" using Ls4 s2 by simp
    show "0 \<le> Q + sw" using Q0 w by simp
    show "line + 1 < h \<longrightarrow>
      sp' = (Q + sw) * 4 \<and> Q + sw + (h - (line + 1) - 1) * sw + w \<le> int (length (src_mem s2))"
      by (fact sp')
  qed
  then obtain s' where
    run: "other_lines bo fb c ((W - w) * 4) sw w h 1 (sw * 4) (line + 1)
           ((P + W) * 4) sp' s2 = Inr ((P + (h - line) * W) * 4, s')"
    and s': "src_mem s' = src_mem s" "endian s' = endian s" "length (dst_mem s') = length (dst_mem s)"
    and s'p: "\<And>j. j < nat (P + W) \<Longrightarrow> dst_mem s' ! j = dst_mem s2 ! j"
    and s'r: "\<And>k i. 0 \<le> k \<Longrightarrow> k < h - (line + 1) \<Longrightarrow> 0 \<le> i \<Longrightarrow> i < w \<Longrightarrow>
         dst_mem s' ! nat (P + W + k * W + (W - w) + i) = src_mem s ! nat (Q + sw + k * sw + i)"
    using s2 hl by auto
  have step: "other_lines bo fb c ((W - w) * 4) sw w h 1 (sw * 4) line (P * 4) sp s =
        Inr ((P + (h - line) * W) * 4, s')"
    apply (subst other_lines.simps)
    apply (simp only: int_sdiv_simps lt if_True void_plus_times_4 g then_do_simps Let_def pos r e1
        sp sp'_def[symmetric])
    apply (rule run)
    done
  have prefix: "dst_mem s' ! j = dst_mem s ! j" if "j < nat P" for j
  proof -
    have "j < nat (P + W)" "j < nat (P + W - w)" using that w P0 by simp_all
    then show ?thesis using s'p s2p s1p that by simp
  qed
  have rows: "dst_mem s' ! nat (P + k * W + (W - w) + i) = src_mem s ! nat (Q + k * sw + i)"
    if "0 \<le> k" "k < h - line" "0 \<le> i" "i < w" for k i
  proof (cases "k = 0")
    case True
    have "nat (P + W - w + i) < nat (P + W)" using that w P0 by simp
    then have "dst_mem s' ! nat (P + W - w + i) = dst_mem s2 ! nat (P + W - w + i)"
      by (rule s'p)
    also have "\<dots> = src_mem s ! nat (Q + i)" using that by (intro s2r)
    finally show ?thesis using True by (simp add: algebra_simps)
  next
    case False
    with that have k: "0 \<le> k - 1" "k - 1 < h - (line + 1)" by simp_all
    have a: "P + W + (k - 1) * W + (W - w) + i = P + k * W + (W - w) + i"
      by (simp add: algebra_simps)
    have b: "Q + sw + (k - 1) * sw + i = Q + k * sw + i"
      by (simp add: algebra_simps)
    show ?thesis using s'r[OF k that(3,4)] unfolding a b .
  qed
  show ?case
    using step s' prefix rows by blast
qed

lemma smod_1 [simp]: "(x::int) smod 1 = 0"
  by (simp add: signed_modulo_int_def)

lemma clip_inside_ratio_1:
  assumes "0 \<le> sx" "0 \<le> sy" "0 \<le> dx" "0 \<le> dy"
    "sx + w \<le> src_w" "sy + h \<le> src_h" "dx + w \<le> dst_w" "dy + h \<le> dst_h" "0 < w" "0 < h"
    "src_w < 2 ^ 31" "src_h < 2 ^ 31" "dst_w < 2 ^ 31" "dst_h < 2 ^ 31"
  shows "clip dst_w dst_h src_w src_h 1
           \<lparr>dst_x = dx, dst_y = dy, src_x = sx, src_y = sy, width = w, height = h\<rparr> =
         Some \<lparr>dst_x = dx, dst_y = dy, src_x = sx, src_y = sy, width = w, height = h\<rparr>"
proof -
  have a: "add_int sx w = sx + w" "add_int dx w = dx + w" "add_int sy h = sy + h"
    "add_int dy h = dy + h"
    using assms by (simp_all add: add_int_id)
  have b: "sub_int (sx + w) src_w = sx + w - src_w" "sub_int (dx + w) dst_w = dx + w - dst_w"
    "sub_int (sy + h) src_h = sy + h - src_h" "sub_int (dy + h) dst_h = dy + h - dst_h"
    using assms by (simp_all add: sub_int_id)
  show ?thesis
    using assms(1-10)
    by (simp add: clip_def round_size_def floor_def clip_x_low_def clip_y_low_def clip_x_high_def
        clip_y_high_def clip_src_x_def clip_dst_x_def clip_src_y_def clip_dst_y_def clip_src_w_def
        clip_dst_w_def clip_src_h_def clip_dst_h_def width_left_def height_left_def Let_def a b)
qed

lemma rect_in_buffer:
  fixes x y w h bw bh :: int
  assumes "0 \<le> x" "0 \<le> y" "x + w \<le> bw" "y + h \<le> bh" "0 < w" "0 < h"
  shows "y * bw + x + w + (h - 1) * bw \<le> bw * bh"
    and "0 \<le> y * bw + x" and "0 \<le> bw" and "y * bw + x + w \<le> bw * bh"
proof -
  show bw: "0 \<le> bw" using assms by simp
  have "(y + h) * bw \<le> bh * bw" using assms(4) bw by (rule mult_right_mono)
  moreover have "y * bw + x + w + (h - 1) * bw = (y + h) * bw + (x + w - bw)"
    by (simp add: algebra_simps)
  ultimately show 1: "y * bw + x + w + (h - 1) * bw \<le> bw * bh"
    using assms(3) by (simp add: mult.commute)
  have "0 \<le> y * bw" using assms bw by simp
  then show "0 \<le> y * bw + x" using assms by simp
  have "0 \<le> (h - 1) * bw" using assms bw by simp
  then show "y * bw + x + w \<le> bw * bh" using 1 by simp
qed

lemma copy_pixels_internal_ratio_1:
  assumes "0 \<le> sx" "0 \<le> sy" "0 \<le> dx" "0 \<le> dy"
    and "sx + w \<le> src_w" "sy + h \<le> src_h" "dx + w \<le> dst_w" "dy + h \<le> dst_h"
    and "0 < w" "0 < h"
    and "int (length (dst_mem s)) = dst_w * dst_h" "int (length (src_mem s)) = src_w * src_h"
    and "dst_w * dst_h * 4 < 2 ^ 31" "src_w * src_h * 4 < 2 ^ 31"
  shows "\<exists>s'. copy_pixels_internal bo dst_w dst_h dx dy src_w src_h sx sy w h 1 fb c s = Inr (True, s') \<and>
      length (dst_mem s') = length (dst_mem s) \<and> src_mem s' = src_mem s \<and>
      (\<forall>j i. 0 \<le> j \<and> j < h \<and> 0 \<le> i \<and> i < w \<longrightarrow>
         dst_mem s' ! nat ((dy + j) * dst_w + dx + i) = src_mem s ! nat ((sy + j) * src_w + sx + i))"
proof -
  define P0 where "P0 = dy * dst_w + dx"
  define Q0 where "Q0 = sy * src_w + sx"
  define P3 where "P3 = P0 + w + (h - 1) * dst_w"
  let ?L = "int (length (dst_mem s))"
  note D = rect_in_buffer[OF assms(3,4,7,8,9,10), folded P0_def]
  note S = rect_in_buffer[OF assms(1,2,5,6,9,10), folded Q0_def]
  let ?Ls = "int (length (src_mem s))"
  have L: "?L = dst_w * dst_h" by (fact assms(11))
  have L4: "?L * 4 < 2 ^ 31" using assms(13) L by simp
  have Ls4: "?Ls * 4 < 2 ^ 31" using assms(12,14) by simp
  have dims: "dst_w \<le> ?L" "dst_h \<le> ?L" "src_w \<le> ?Ls" "src_h \<le> ?Ls"
  proof -
    have d: "1 \<le> dst_h" "1 \<le> dst_w" using assms(3,4,7,8,9,10) by simp_all
    have s: "1 \<le> src_h" "1 \<le> src_w" using assms(1,2,5,6,9,10) by simp_all
    have "dst_w * 1 \<le> dst_w * dst_h" using d by (intro mult_left_mono) simp_all
    then show "dst_w \<le> ?L" using L by simp
    have "1 * dst_h \<le> dst_w * dst_h" using d by (intro mult_right_mono) simp_all
    then show "dst_h \<le> ?L" using L by simp
    have "src_w * 1 \<le> src_w * src_h" using s by (intro mult_left_mono) simp_all
    then show "src_w \<le> ?Ls" using assms(12) by simp
    have "1 * src_h \<le> src_w * src_h" using s by (intro mult_right_mono) simp_all
    then show "src_h \<le> ?Ls" using assms(12) by simp
  qed
  have P3L: "P3 \<le> ?L" using D(1) L by (simp add: P3_def)
  have w_le: "w \<le> dst_w" using assms(3,7) by simp
  have P0w: "P0 + w \<le> ?L" using D(4) L by simp
  have g: "clip dst_w dst_h src_w src_h 1
        \<lparr>dst_x = dx, dst_y = dy, src_x = sx, src_y = sy, width = w, height = h\<rparr> =
      Some \<lparr>dst_x = dx, dst_y = dy, src_x = sx, src_y = sy, width = w, height = h\<rparr>"
    using assms(1-10) dims L4 Ls4 by (intro clip_inside_ratio_1) simp_all
  \<comment> \<open>the blank before the first row\<close>
  have yw: "0 \<le> dy * dst_w" "0 \<le> sy * src_w" using assms(2,4) D(3) S(3) by simp_all
  have p0: "add_int (mul_int dy dst_w) dx = P0"
  proof -
    have "mul_int dy dst_w = dy * dst_w"
      using yw assms(3,9) P0w L4 by (intro mul_int_id) (simp_all add: P0_def)
    moreover have "add_int (dy * dst_w) dx = dy * dst_w + dx"
      using yw assms(3,9) P0w L4 by (intro add_int_id) (simp_all add: P0_def)
    ultimately show ?thesis by (simp add: P0_def)
  qed
  have q0: "mul_int (add_int (mul_int sy src_w) sx) 4 = Q0 * 4"
  proof -
    have Qw: "Q0 + w \<le> ?Ls" using S(4) assms(12) by simp
    have "mul_int sy src_w = sy * src_w"
      using yw assms(1,9) Qw Ls4 by (intro mul_int_id) (simp_all add: Q0_def)
    moreover have "add_int (sy * src_w) sx = sy * src_w + sx"
      using yw assms(1,9) Qw Ls4 by (intro add_int_id) (simp_all add: Q0_def)
    moreover have "mul_int Q0 4 = Q0 * 4"
      using S(2) assms(9) Qw Ls4 by (intro mul_int_id) simp_all
    ultimately show ?thesis by (simp add: Q0_def)
  qed
  have stride: "mul_int (mul_int src_w 4) 1 = src_w * 4"
  proof -
    have "mul_int src_w 4 = src_w * 4" using S(3) dims Ls4 by (intro mul_int_id) simp_all
    moreover have "mul_int (src_w * 4) 1 = src_w * 4 * 1"
      using S(3) dims Ls4 by (intro mul_int_id) simp_all
    ultimately show ?thesis by simp
  qed
  have bl: "to_size_t (to_size_t P0 * 4) = P0 * 4"
  proof -
    have "to_size_t P0 = P0" using D(2) P0w L4 assms(9) by (intro to_size_t_id) simp_all
    moreover have "to_size_t (P0 * 4) = P0 * 4"
      using D(2) P0w L4 assms(9) by (intro to_size_t_id) simp_all
    ultimately show ?thesis by simp
  qed
  have pos: "to_int (to_size_t (to_size_t 0 + P0 * 4)) = P0 * 4"
  proof -
    have a: "to_size_t 0 = 0" by (simp add: to_size_t_def)
    have b: "to_size_t (P0 * 4) = P0 * 4"
      using D(2) P0w L4 assms(9) by (intro to_size_t_id) simp_all
    have c: "to_int (P0 * 4) = P0 * 4"
      using D(2) P0w L4 assms(9) by (intro to_int_id) simp_all
    show ?thesis unfolding a by (simp add: b c)
  qed
  obtain s1 where
    f1: "(if fb then memset_int (Dst, 0) c (P0 * 4 div 4) s else Inr s) = Inr s1"
    and s1: "src_mem s1 = src_mem s" "length (dst_mem s1) = length (dst_mem s)"
    using memset_int_effect[of 0 P0 s c] D(2) P0w assms(9) L4 by (cases fb) auto
  \<comment> \<open>the first row\<close>
  have Qw: "Q0 + w \<le> int (length (src_mem s1))" using S(4) assms(12) s1 by simp
  obtain s2 where
    r: "copy_color bo (Dst, P0) (Src, Q0) src_w w 1 s1 = Inr s2"
    and s2: "src_mem s2 = src_mem s" "length (dst_mem s2) = length (dst_mem s)"
    and s2r: "\<And>i. 0 \<le> i \<Longrightarrow> i < w \<Longrightarrow> dst_mem s2 ! nat (P0 + i) = src_mem s ! nat (Q0 + i)"
    using copy_color_ratio_1_effect[of P0 Q0 w s1 bo src_w] D(2) S(2) assms(9) P0w L4 Qw s1
    by auto
  \<comment> \<open>the other rows\<close>
  have gap: "to_size_t (mul_int (sub_int dst_w w) 4) = (dst_w - w) * 4"
  proof -
    have "sub_int dst_w w = dst_w - w"
      using w_le dims L4 assms(9) by (intro sub_int_id) simp_all
    moreover have "mul_int (dst_w - w) 4 = (dst_w - w) * 4"
      using w_le dims L4 assms(9) by (intro mul_int_id) simp_all
    moreover have "to_size_t ((dst_w - w) * 4) = (dst_w - w) * 4"
      using w_le dims L4 assms(9) by (intro to_size_t_id) simp_all
    ultimately show ?thesis by simp
  qed
  have e1: "add_int (P0 * 4) (mul_int w 4) = (P0 + w) * 4"
  proof -
    have "mul_int w 4 = w * 4" using assms(9) P0w D(2) L4 by (intro mul_int_id) simp_all
    moreover have "add_int (P0 * 4) (w * 4) = P0 * 4 + w * 4"
      using assms(9) P0w D(2) L4 by (intro add_int_id) simp_all
    ultimately show ?thesis by simp
  qed
  define sp1 where "sp1 = add_int (Q0 * 4) (src_w * 4)"
  have sp1: "1 < h \<longrightarrow>
      sp1 = (Q0 + src_w) * 4 \<and> Q0 + src_w + (h - 1 - 1) * src_w + w \<le> int (length (src_mem s2))"
  proof
    assume h1: "1 < h"
    have eq: "Q0 + src_w + (h - 1 - 1) * src_w + w = Q0 + w + (h - 1) * src_w"
      by (simp add: algebra_simps)
    have le: "Q0 + w + (h - 1) * src_w \<le> ?Ls" using S(1) assms(12) by simp
    have "0 \<le> (h - 1 - 1) * src_w" using h1 S(3) by simp
    then have "Q0 + src_w + w \<le> ?Ls" using le eq by simp
    then have "add_int (Q0 * 4) (src_w * 4) = Q0 * 4 + src_w * 4"
      using S(2,3) assms(9) Ls4 by (intro add_int_id) simp_all
    then show "sp1 = (Q0 + src_w) * 4 \<and>
        Q0 + src_w + (h - 1 - 1) * src_w + w \<le> int (length (src_mem s2))"
      using le eq s2 by (simp add: sp1_def)
  qed
  have "\<exists>s'. other_lines bo fb c ((dst_w - w) * 4) src_w w h 1 (src_w * 4) 1
          ((P0 + w) * 4) sp1 s2 =
        Inr ((P0 + w + (h - 1) * dst_w) * 4, s') \<and>
      src_mem s' = src_mem s2 \<and> endian s' = endian s2 \<and>
      length (dst_mem s') = length (dst_mem s2) \<and>
      (\<forall>j. j < nat (P0 + w) \<longrightarrow> dst_mem s' ! j = dst_mem s2 ! j) \<and>
      (\<forall>k i. 0 \<le> k \<and> k < h - 1 \<and> 0 \<le> i \<and> i < w \<longrightarrow>
         dst_mem s' ! nat (P0 + w + k * dst_w + (dst_w - w) + i) =
         src_mem s2 ! nat (Q0 + src_w + k * src_w + i))"
  proof (rule other_lines_ratio_1)
    show "0 < w" "w \<le> dst_w" "0 \<le> src_w" "1 \<le> h"
      using assms(9,10) w_le S(3) by simp_all
    show "0 \<le> P0 + w" using D(2) assms(9) by simp
    show "P0 + w + (h - 1) * dst_w \<le> int (length (dst_mem s2))"
      using P3L s2 by (simp add: P3_def)
    show "int (length (dst_mem s2)) * 4 < 2 ^ 31" using L4 s2 by simp
    show "int (length (src_mem s2)) * 4 < 2 ^ 31" using Ls4 s2 by simp
    show "0 \<le> Q0 + src_w" using S(2,3) by simp
    show "1 < h \<longrightarrow>
      sp1 = (Q0 + src_w) * 4 \<and> Q0 + src_w + (h - 1 - 1) * src_w + w \<le> int (length (src_mem s2))"
      by (fact sp1)
  qed
  then obtain s3 where
    o: "other_lines bo fb c ((dst_w - w) * 4) src_w w h 1 (src_w * 4) 1
          ((P0 + w) * 4) sp1 s2 = Inr (P3 * 4, s3)"
    and s3: "src_mem s3 = src_mem s" "length (dst_mem s3) = length (dst_mem s)"
    and s3p: "\<And>j. j < nat (P0 + w) \<Longrightarrow> dst_mem s3 ! j = dst_mem s2 ! j"
    and s3r: "\<And>k i. 0 \<le> k \<Longrightarrow> k < h - 1 \<Longrightarrow> 0 \<le> i \<Longrightarrow> i < w \<Longrightarrow>
         dst_mem s3 ! nat (P0 + w + k * dst_w + (dst_w - w) + i) =
         src_mem s ! nat (Q0 + src_w + k * src_w + i)"
    using s2 by (auto simp add: P3_def)
  \<comment> \<open>the blank after the last row\<close>
  have P3_0: "0 \<le> P3" using D(2,3) assms(9,10) by (simp add: P3_def)
  have fin: "to_size_t (sub_int (mul_int (mul_int dst_w dst_h) 4) (P3 * 4)) div 4 =
      dst_w * dst_h - P3"
  proof -
    have L0: "0 \<le> ?L" by simp
    have "to_int ?L = ?L" using L0 L4 by (intro to_int_id) simp_all
    then have a: "mul_int dst_w dst_h = ?L"
      unfolding mul_int_def L[symmetric] .
    have b: "mul_int ?L 4 = ?L * 4" using L0 L4 by (intro mul_int_id) simp_all
    have c: "sub_int (?L * 4) (P3 * 4) = ?L * 4 - P3 * 4"
      using P3L P3_0 L4 by (intro sub_int_id) simp_all
    have d: "to_size_t ((?L - P3) * 4) = (?L - P3) * 4"
      using P3L P3_0 L4 by (intro to_size_t_id) simp_all
    have "?L * 4 - P3 * 4 = (?L - P3) * 4" by (simp add: algebra_simps)
    then show ?thesis unfolding a b c using d L by simp
  qed
  obtain s4 where
    f4: "(if fb then memset_int (Dst, P3) c (dst_w * dst_h - P3) s3 else Inr s3) = Inr s4"
    and s4: "src_mem s4 = src_mem s" "length (dst_mem s4) = length (dst_mem s)"
    and s4p: "\<And>j. j < nat P3 \<Longrightarrow> dst_mem s4 ! j = dst_mem s3 ! j"
    using memset_int_effect[of P3 "dst_w * dst_h - P3" s3 c] P3_0 P3L L L4 s3 by (cases fb) auto
  have e0: "void_plus Dst 0 = (Dst, 0)" by (simp add: void_plus_def)
  have run: "copy_pixels_internal bo dst_w dst_h dx dy src_w src_h sx sy w h 1 fb c s = Inr (True, s4)"
    unfolding copy_pixels_internal_def g option.case Let_def
    apply (simp only: geometry.simps p0 q0 stride)
    apply (simp only: bl pos e0 void_plus_times_4 f1 then_do_simps r e1 gap sp1_def[symmetric] o
        prod.case fin f4)
    done
  have rows: "dst_mem s4 ! nat ((dy + j) * dst_w + dx + i) = src_mem s ! nat ((sy + j) * src_w + sx + i)"
    if "0 \<le> j" "j < h" "0 \<le> i" "i < w" for j i
  proof -
    have ix: "(dy + j) * dst_w + dx + i = P0 + j * dst_w + i"
      and iy: "(sy + j) * src_w + sx + i = Q0 + j * src_w + i"
      by (simp_all add: P0_def Q0_def algebra_simps)
    have "j * dst_w \<le> (h - 1) * dst_w" using that D(3) by (intro mult_right_mono) simp_all
    moreover have "0 \<le> (h - 1) * dst_w" using assms(10) D(3) by simp
    ultimately have lt3: "nat (P0 + j * dst_w + i) < nat P3"
      using that D(2) by (simp add: P3_def)
    show ?thesis
    proof (cases "j = 0")
      case True
      have "dst_mem s4 ! nat (P0 + i) = dst_mem s3 ! nat (P0 + i)"
        using lt3 True by (intro s4p) simp
      also have "\<dots> = dst_mem s2 ! nat (P0 + i)"
        using that D(2) by (intro s3p) simp
      also have "\<dots> = src_mem s ! nat (Q0 + i)" using that by (intro s2r)
      finally show ?thesis unfolding ix iy using True by simp
    next
      case False
      with that have k: "0 \<le> j - 1" "j - 1 < h - 1" by simp_all
      have a: "P0 + w + (j - 1) * dst_w + (dst_w - w) + i = P0 + j * dst_w + i"
        by (simp add: algebra_simps)
      have b: "Q0 + src_w + (j - 1) * src_w + i = Q0 + j * src_w + i"
        by (simp add: algebra_simps)
      have "dst_mem s4 ! nat (P0 + j * dst_w + i) = dst_mem s3 ! nat (P0 + j * dst_w + i)"
        using lt3 by (rule s4p)
      also have "\<dots> = src_mem s ! nat (Q0 + j * src_w + i)"
        using s3r[OF k that(3,4)] unfolding a b .
      finally show ?thesis unfolding ix iy .
    qed
  qed
  show ?thesis using run s4 rows by blast
qed



section \<open>Block averager\<close>

lemma uint_uchar_of_int: "0 \<le> k \<Longrightarrow> k < 256 \<Longrightarrow> uint (word_of_int k :: uchar) = k"
  by (simp add: uint_word_of_int take_bit_int_eq_self)

lemma uint_uchar_succ: "uint a + 1 < 256 \<Longrightarrow> uint (a + 1 :: uchar) = uint a + 1"
  by (simp add: uint_word_ariths take_bit_int_eq_self)

lemma average_step_exact:
  fixes x y v :: uchar and c :: int
  assumes c: "0 < c" "c \<le> 128" and y: "uint y < c"
    and room: "uint x * c + uint y + uint v < 256 * c"
  shows "uint (fst (average_step v c (x, y))) * c + uint (snd (average_step v c (x, y))) =
           uint x * c + uint y + uint v"
    and "uint (snd (average_step v c (x, y))) < c"
proof -
  define q where "q = uint v div c"
  define r where "r = uint v mod c"
  define xw :: uchar where "xw = word_of_int (uint x + q)"
  define yw :: uchar where "yw = word_of_int (uint y + r)"
  have v: "uint v = q * c + r" by (simp add: q_def r_def)
  have r: "0 \<le> r" "r < c" using c by (simp_all add: r_def)
  have q: "0 \<le> q" using c by (simp add: q_def pos_imp_zdiv_nonneg_iff)
  have sd: "uint v sdiv c = q" "uint v smod c = r"
    using c by (simp_all add: q_def r_def sdiv_nonneg smod_nonneg)
  have x0: "0 \<le> uint x" and y0: "0 \<le> uint y" by simp_all
  have yr: "uint y + r < 256" using y r c by simp
  have "(uint x + q) * c \<le> uint x * c + uint y + uint v"
    using y0 r by (simp add: v algebra_simps)
  then have "(uint x + q) * c < 256 * c" using room by simp
  then have xq: "uint x + q < 256" using c by simp
  have ux: "uint xw = uint x + q"
    unfolding xw_def using xq x0 q by (intro uint_uchar_of_int) simp_all
  have uy: "uint yw = uint y + r"
    unfolding yw_def using yr y0 r by (intro uint_uchar_of_int) simp_all
  define x2 :: uchar where "x2 = xw + 1"
  define y2 :: uchar where "y2 = word_of_int (uint yw - c)"
  have as: "average_step v c (x, y) = (if c \<le> uint yw then (x2, y2) else (xw, yw))"
    unfolding average_step_def Let_def fst_conv snd_conv sd xw_def yw_def x2_def y2_def by simp
  have "uint (fst (average_step v c (x, y))) * c + uint (snd (average_step v c (x, y))) =
           uint x * c + uint y + uint v \<and> uint (snd (average_step v c (x, y))) < c"
  proof (cases "c \<le> uint yw")
    case False
    then show ?thesis
      unfolding as by (simp add: ux uy v algebra_simps)
  next
    case True
    have "(uint x + q + 1) * c \<le> uint x * c + uint y + uint v"
      using True by (simp add: uy v algebra_simps)
    then have "(uint x + q + 1) * c < 256 * c" using room by simp
    then have xq1: "uint x + q + 1 < 256" using c by simp
    have ux2: "uint x2 = uint x + q + 1"
      unfolding x2_def using xq1 uint_uchar_succ[of xw] by (simp add: ux)
    have "0 \<le> uint yw - c" "uint yw - c < 256" using True yr c by (simp_all add: uy)
    then have uy2: "uint y2 = uint yw - c"
      unfolding y2_def by (rule uint_uchar_of_int)
    show ?thesis
      unfolding as using True y r by (simp add: ux2 uy2 uy v algebra_simps)
  qed
  then show "uint (fst (average_step v c (x, y))) * c + uint (snd (average_step v c (x, y))) =
           uint x * c + uint y + uint v"
    and "uint (snd (average_step v c (x, y))) < c"
    by simp_all
qed

lemma average_pixel_channel:
  assumes "k < 4"
  shows "average_of k (average_pixel bo px c acc) =
         average_step (int_bytes bo px ! k) c (average_of k acc)"
proof -
  from assms have "k = 0 \<or> k = 1 \<or> k = 2 \<or> k = 3" by auto
  then show ?thesis
    by (auto simp add: average_of_def average_pixel_def color_to_rgba_def Let_def)
qed

lemma channel_bounds: "0 \<le> channel bo k px" "channel bo k px \<le> 255"
proof -
  show "0 \<le> channel bo k px" by (simp add: channel_def)
  have "uint (int_bytes bo px ! k) < 2 ^ LENGTH(8)" by (rule uint_lt2p)
  then show "channel bo k px \<le> 255" by (simp add: channel_def)
qed

lemma holds_sum_step:
  assumes "k < 4" "0 < c" "c \<le> 128" "holds_sum k c acc S" "S \<le> 255 * n" "n + 1 \<le> c"
  shows "holds_sum k c (average_pixel bo px c acc) (S + channel bo k px)"
proof -
  obtain x y where xy: "average_of k acc = (x, y)" by (cases "average_of k acc")
  have inv: "uint x * c + uint y = S" "uint y < c"
    using assms(4) by (simp_all add: holds_sum_def xy)
  have "S + channel bo k px \<le> 255 * (n + 1)"
    using assms(5) channel_bounds(2)[of bo k px] by simp
  also have "\<dots> \<le> 255 * c" using assms(6) by simp
  also have "\<dots> < 256 * c" using assms(2) by simp
  finally have room: "uint x * c + uint y + uint (int_bytes bo px ! k) < 256 * c"
    by (simp add: inv channel_def)
  show ?thesis
    using average_step_exact[OF assms(2,3) inv(2) room]
    by (simp add: holds_sum_def average_pixel_channel[OF assms(1)] xy inv channel_def)
qed

lemma sum_from_int:
  fixes f :: "int \<Rightarrow> int"
  assumes "j < n"
  shows "(\<Sum>j' = j..<n. f j') = f j + (\<Sum>j' = j + 1..<n. f j')"
proof -
  have "{j..<n} = insert j {j + 1..<n}" using assms by auto
  then show ?thesis by simp
qed

lemma bilinear_cols_sum:
  assumes "k < 4" "0 < c" "c \<le> 128"
    and "holds_sum k c acc S" "S \<le> 255 * n" "n + (ratio - j) \<le> c" "j \<le> ratio"
    and "\<And>j'. j \<le> j' \<Longrightarrow> j' < ratio \<Longrightarrow> in_bounds s (fst ptr, snd ptr + w * i + j')"
  shows "\<exists>acc'. bilinear_cols bo ptr w ratio c i j acc s = Some acc' \<and>
           holds_sum k c acc'
             (S + (\<Sum>j' = j..<ratio. channel bo k (buf s (fst ptr) ! nat (snd ptr + w * i + j'))))"
  using assms(2-)
proof (induction bo ptr w ratio c i j acc s arbitrary: S n rule: bilinear_cols.induct)
  case (1 bo ptr w ratio c i j acc s)
  note c = "1.prems"(1,2) and hs0 = "1.prems"(3) and S = "1.prems"(4) and n = "1.prems"(5)
    and j = "1.prems"(6) and ib = "1.prems"(7)
  let ?f = "\<lambda>j'. channel bo k (buf s (fst ptr) ! nat (snd ptr + w * i + j'))"
  show ?case
  proof (cases "j < ratio")
    case False
    with hs0 j show ?thesis
      by (subst bilinear_cols.simps) simp
  next
    case True
    let ?px = "buf s (fst ptr) ! nat (snd ptr + w * i + j)"
    have "in_bounds s (fst ptr, snd ptr + w * i + j)" using ib True by simp
    then have ld: "load (fst ptr, snd ptr + w * i + j) s = Some ?px"
      by (simp add: load_def)
    have n1: "n + 1 \<le> c" using n True by simp
    have hs: "holds_sum k c (average_pixel bo ?px c acc) (S + ?f j)"
      using assms(1) c hs0 S n1 by (rule holds_sum_step)
    have "\<exists>acc'. bilinear_cols bo ptr w ratio c i (j + 1) (average_pixel bo ?px c acc) s = Some acc' \<and>
           holds_sum k c acc' (S + ?f j + (\<Sum>j' = j + 1..<ratio. ?f j'))"
    proof (rule "1.IH"[OF True ld c hs])
      show "S + ?f j \<le> 255 * (n + 1)"
        using S channel_bounds(2)[of bo k ?px] by simp
      show "n + 1 + (ratio - (j + 1)) \<le> c" using n by simp
      show "j + 1 \<le> ratio" using True by simp
      show "\<And>j'. j + 1 \<le> j' \<Longrightarrow> j' < ratio \<Longrightarrow> in_bounds s (fst ptr, snd ptr + w * i + j')"
        using ib by simp
    qed
    then obtain acc' where
      rec: "bilinear_cols bo ptr w ratio c i (j + 1) (average_pixel bo ?px c acc) s = Some acc'" and
      hs': "holds_sum k c acc' (S + ?f j + (\<Sum>j' = j + 1..<ratio. ?f j'))"
      by blast
    have sp: "(\<Sum>j' = j..<ratio. ?f j') = ?f j + (\<Sum>j' = j + 1..<ratio. ?f j')"
      by (rule sum_from_int[OF True])
    have step: "bilinear_cols bo ptr w ratio c i j acc s = Some acc'"
      using True ld rec by (subst bilinear_cols.simps) simp
    have "holds_sum k c acc' (S + (\<Sum>j' = j..<ratio. ?f j'))"
      using hs' unfolding sp by (simp only: add.assoc)
    with step show ?thesis by blast
  qed
qed

lemma row_sum_bound:
  assumes "j \<le> ratio"
  shows "(\<Sum>j' = j..<ratio. channel bo k (f j')) \<le> 255 * (ratio - j)"
proof -
  have "(\<Sum>j' \<in> {j..<ratio}. channel bo k (f j')) \<le> of_nat (card {j..<ratio}) * 255"
    by (rule sum_bounded_above) (simp add: channel_bounds)
  then show ?thesis using assms by simp
qed

lemma bilinear_rows_sum:
  assumes "k < 4" "0 < c" "c \<le> 128" "0 \<le> ratio"
    and "holds_sum k c acc S" "S \<le> 255 * n" "n + (ratio - i) * ratio \<le> c" "i \<le> ratio"
    and "\<And>i' j'. i \<le> i' \<Longrightarrow> i' < ratio \<Longrightarrow> 0 \<le> j' \<Longrightarrow> j' < ratio \<Longrightarrow>
           in_bounds s (fst ptr, snd ptr + w * i' + j')"
  shows "\<exists>acc'. bilinear_rows bo ptr w ratio c i acc s = Some acc' \<and>
           holds_sum k c acc'
             (S + (\<Sum>i' = i..<ratio. \<Sum>j' = 0..<ratio.
                     channel bo k (buf s (fst ptr) ! nat (snd ptr + w * i' + j'))))"
  using assms(2-)
proof (induction bo ptr w ratio c i acc s arbitrary: S n rule: bilinear_rows.induct)
  case (1 bo ptr w ratio c i acc s)
  note c = "1.prems"(1,2) and r0 = "1.prems"(3) and hs0 = "1.prems"(4) and S = "1.prems"(5)
    and n = "1.prems"(6) and i = "1.prems"(7) and ib = "1.prems"(8)
  let ?f = "\<lambda>i' j'. channel bo k (buf s (fst ptr) ! nat (snd ptr + w * i' + j'))"
  show ?case
  proof (cases "i < ratio")
    case False
    with hs0 i show ?thesis
      by (subst bilinear_rows.simps) simp
  next
    case True
    have split: "(ratio - i) * ratio = ratio + (ratio - (i + 1)) * ratio"
      by (simp add: algebra_simps)
    have "0 \<le> (ratio - (i + 1)) * ratio" using True r0 by simp
    then have nr: "n + (ratio - 0) \<le> c" using n split by simp
    obtain acc1 where
      cols: "bilinear_cols bo ptr w ratio c i 0 acc s = Some acc1" and
      hs1: "holds_sum k c acc1 (S + (\<Sum>j' = 0..<ratio. ?f i j'))"
      using bilinear_cols_sum[OF assms(1) c hs0 S nr r0, of s ptr w i bo] ib True i by auto
    have "\<exists>acc'. bilinear_rows bo ptr w ratio c (i + 1) acc1 s = Some acc' \<and>
           holds_sum k c acc'
             (S + (\<Sum>j' = 0..<ratio. ?f i j') + (\<Sum>i' = i + 1..<ratio. \<Sum>j' = 0..<ratio. ?f i' j'))"
    proof (rule "1.IH"[OF True cols c r0 hs1])
      show "S + (\<Sum>j' = 0..<ratio. ?f i j') \<le> 255 * (n + ratio)"
        using S row_sum_bound[OF r0, of bo k "\<lambda>j'. buf s (fst ptr) ! nat (snd ptr + w * i + j')"]
        by simp
      show "n + ratio + (ratio - (i + 1)) * ratio \<le> c" using n split by simp
      show "i + 1 \<le> ratio" using True by simp
      show "\<And>i' j'. i + 1 \<le> i' \<Longrightarrow> i' < ratio \<Longrightarrow> 0 \<le> j' \<Longrightarrow> j' < ratio \<Longrightarrow>
           in_bounds s (fst ptr, snd ptr + w * i' + j')"
        using ib by simp
    qed
    then obtain acc' where
      rec: "bilinear_rows bo ptr w ratio c (i + 1) acc1 s = Some acc'" and
      hs': "holds_sum k c acc'
             (S + (\<Sum>j' = 0..<ratio. ?f i j') + (\<Sum>i' = i + 1..<ratio. \<Sum>j' = 0..<ratio. ?f i' j'))"
      by blast
    have sp: "(\<Sum>i' = i..<ratio. \<Sum>j' = 0..<ratio. ?f i' j') =
        (\<Sum>j' = 0..<ratio. ?f i j') + (\<Sum>i' = i + 1..<ratio. \<Sum>j' = 0..<ratio. ?f i' j')"
      by (rule sum_from_int[OF True])
    have step: "bilinear_rows bo ptr w ratio c i acc s = Some acc'"
      using True cols rec by (subst bilinear_rows.simps) simp
    have "holds_sum k c acc' (S + (\<Sum>i' = i..<ratio. \<Sum>j' = 0..<ratio. ?f i' j'))"
      using hs' unfolding sp by (simp only: add.assoc)
    with step show ?thesis by blast
  qed
qed

lemma small_ratio_count:
  fixes ratio :: int
  assumes "2 \<le> ratio" "ratio \<le> 11"
  shows "0 < ratio * ratio" and "ratio * ratio \<le> 128"
proof -
  show "0 < ratio * ratio" using assms by simp
  have "ratio * ratio \<le> 11 * 11" using assms by (intro mult_mono) simp_all
  then show "ratio * ratio \<le> 128" by simp
qed

lemma holds_sum_div:
  assumes "holds_sum k c acc S" "0 < c"
  shows "uint (fst (average_of k acc)) = S div c"
proof -
  let ?x = "uint (fst (average_of k acc))" and ?y = "uint (snd (average_of k acc))"
  have "S = ?y + ?x * c" "?y < c" "0 \<le> ?y"
    using assms(1) by (simp_all add: holds_sum_def)
  then show ?thesis using assms(2) by simp
qed

lemma channel_rgba_to_color:
  assumes "k < 4"
  shows "channel bo k (rgba_to_color bo (r1 acc) (g1 acc) (b1 acc) (a1 acc)) =
         uint (fst (average_of k acc))"
proof -
  from assms have "k = 0 \<or> k = 1 \<or> k = 2 \<or> k = 3" by auto
  then show ?thesis
    by (auto simp add: channel_def rgba_to_color_def int_bytes_bytes_int average_of_def)
qed

text \<open>
  For ratios from 2 to 11 the block averager is exact: \<open>count\<close> is at most 121, the
  remainder accumulator stays below \<open>2 * count \<le> 255\<close>, and each channel of the result
  is the floor of the channel's sum over the block divided by \<open>count\<close>.
\<close>

theorem averaged_pixel_small_ratio:
  assumes "2 \<le> ratio" and "ratio \<le> 11" and "k < 4"
    and "\<forall>i j. 0 \<le> i \<and> i < ratio \<and> 0 \<le> j \<and> j < ratio \<longrightarrow>
           0 \<le> p + w * i + j \<and> p + w * i + j < int (length (src_mem s))"
  shows "\<exists>px. averaged_pixel bo (Src, p) w ratio s = Some px \<and>
           channel bo k px =
             (\<Sum>i = 0..<ratio. \<Sum>j = 0..<ratio. channel bo k (src_mem s ! nat (p + w * i + j)))
               div (ratio * ratio)"
proof -
  note c = small_ratio_count[OF assms(1,2)]
  have r0: "0 \<le> ratio" using assms(1) by simp
  have h0: "holds_sum k (ratio * ratio) no_averages 0"
    using c(1) by (simp add: holds_sum_def average_of_def no_averages_def)
  obtain acc where
    rows: "bilinear_rows bo (Src, p) w ratio (ratio * ratio) 0 no_averages s = Some acc" and
    hs: "holds_sum k (ratio * ratio) acc
          (0 + (\<Sum>i = 0..<ratio. \<Sum>j = 0..<ratio.
                  channel bo k (buf s (fst (Src, p)) ! nat (snd (Src, p) + w * i + j))))"
    using bilinear_rows_sum[OF assms(3) c r0 h0, of 0 0 s "(Src, p)" w bo] assms(4) r0
    by (auto simp add: in_bounds_def)
  have "averaged_pixel bo (Src, p) w ratio s =
          Some (rgba_to_color bo (r1 acc) (g1 acc) (b1 acc) (a1 acc))"
    by (simp add: averaged_pixel_def rows)
  moreover have "channel bo k (rgba_to_color bo (r1 acc) (g1 acc) (b1 acc) (a1 acc)) =
      (\<Sum>i = 0..<ratio. \<Sum>j = 0..<ratio. channel bo k (src_mem s ! nat (p + w * i + j)))
        div (ratio * ratio)"
    using holds_sum_div[OF hs c(1)] by (simp add: channel_rgba_to_color[OF assms(3)])
  ultimately show ?thesis by simp
qed

section \<open>Runs of the blitter on small buffers\<close>

text \<open>
  Claim C1. No access of \<open>copy_pixels\<close> leaves its buffer, however malformed the
  geometry. The run below refutes it for an oversized width: source and destination are
  4 by 1, \<open>src_x = 10\<close> and \<open>width = 2147483647\<close>. The sum \<open>src_x + width\<close> of line 209
  wraps to a negative value, so the source edge does not clip, the destination edge
  reduces \<open>width\<close> to 4, and the row copy of line 248 reads the source cells 10 to 13 of
  a source of 4 cells. The first of these loads is outside the source.
\<close>

theorem copy_pixels_read_out_of_bounds:
  "copy_pixels LittleEndianHost 4 1 0 0 4 1 10 0 2147483647 1 1 False 0
     \<lparr>endian = NOT 0, dst_mem = [7, 7, 7, 7], src_mem = [1, 2, 3, 4]\<rparr> =
   Inl (OutOfBounds, \<lparr>endian = NOT 0, dst_mem = [7, 7, 7, 7], src_mem = [1, 2, 3, 4]\<rparr>)"
  by code_simp

text \<open>
  Claim C2. With blank filling, every destination pixel outside the copied rectangle gets
  the fill colour. The run below refutes it for ratio 2: a 4 by 4 source is reduced into a
  4 by 2 destination, the copied rectangle is columns 0 and 1 of both rows, and columns 2
  and 3 keep their old value 7 instead of the native fill colour \<open>0xFF0000FF\<close>, because
  the gap of line 253 is \<open>dst_w - width = 0\<close> pixels and not
  \<open>dst_w - width / ratio = 2\<close>.
\<close>

theorem copy_pixels_gap_not_filled:
  "copy_pixels LittleEndianHost 4 2 0 0 4 4 0 0 4 4 2 True 0xFFFF0000
     \<lparr>endian = NOT 0, dst_mem = replicate 8 7, src_mem = replicate 16 0x01020304\<rparr> =
   Inr \<lparr>endian = 0,
         dst_mem = [0x01020304, 0x01020304, 7, 7, 0x01020304, 0x01020304, 7, 7],
         src_mem = replicate 16 0x01020304\<rparr> \<and>
   fst (convert_color LittleEndianHost 0xFFFF0000
          \<lparr>endian = NOT 0, dst_mem = replicate 8 7, src_mem = replicate 16 0x01020304\<rparr>) =
     0xFF0000FF"
  by code_simp

text \<open>
  Claim C3. For every ratio of at least 2, each channel of the averaged pixel is the floor
  of the channel's mean over the block. The run below refutes it for ratio 16: every
  pixel of the 16 by 16 block has all four channels equal to 255, the mean is 255, and
  the result has all four channels equal to 0. With \<open>count = 256\<close> the quotient
  \<open>num / count\<close> is 0 and the remainder accumulator, an \<^verbatim>\<open>unsigned char\<close>, wraps
  modulo 256 and never reaches \<open>count\<close>.
\<close>

theorem bilinear_color_ratio_16:
  "bilinear_color LittleEndianHost (Src, 0) 16 16 (Dst, 0)
     \<lparr>endian = NOT 0, dst_mem = [7], src_mem = replicate 256 0xFFFFFFFF\<rparr> =
   Inr \<lparr>endian = NOT 0, dst_mem = [0], src_mem = replicate 256 0xFFFFFFFF\<rparr> \<and>
   color_to_rgba LittleEndianHost 0xFFFFFFFF = (255, 255, 255, 255) \<and>
   color_to_rgba LittleEndianHost 0 = (0, 0, 0, 0)"
  by code_simp

end
